theory Spec2Isabelle
  imports Main "HOL-Library.Word"
begin

section \<open>Common ground: C integers, run-time faults, checked array accesses\<close>

text \<open>
  The sample programs are plain C. An \<open>int\<close> is a 32-bit two's complement word
  (\<open>+\<close> wraps, \<open>sint\<close> reads the signed value, \<open>word_sless\<close> and \<open>word_sle\<close> are the
  signed comparisons). A run of a function either returns a value (\<open>Inr\<close>) or stops at
  the first fault (\<open>Inl\<close>): a failed \<open>assert\<close>, or an array access outside the array,
  reported with the kind of access, the array, the index and the source line.
\<close>

type_synonym cint = "32 word"

datatype access = Read | Write

datatype fault =
    AssertionFailed nat
  | OutOfBounds access string int nat

definition bindE :: "fault + 'a \<Rightarrow> ('a \<Rightarrow> fault + 'b) \<Rightarrow> fault + 'b" where
  "bindE m f = (case m of Inl e \<Rightarrow> Inl e | Inr v \<Rightarrow> f v)"

definition assert_at :: "nat \<Rightarrow> bool \<Rightarrow> fault + unit" where
  "assert_at line c = (if c then Inr () else Inl (AssertionFailed line))"

definition INT_MAX :: cint where
  "INT_MAX = 2147483647"

lemma bindE_cong [fundef_cong]:
  "m = m' \<Longrightarrow> (\<And>v. m' = Inr v \<Longrightarrow> f v = f' v) \<Longrightarrow> bindE m f = bindE m' f'"
  by (auto simp: bindE_def split: sum.splits)

text \<open>
  An array is a list; an index is a C \<open>int\<close>, read here as a mathematical integer.
  A read or a write inside \<open>0 .. length - 1\<close> succeeds, any other index is a fault
  that names the access, the array, the index and the line.
\<close>

definition arr_read :: "string \<Rightarrow> nat \<Rightarrow> 'a list \<Rightarrow> int \<Rightarrow> fault + 'a" where
  "arr_read name line xs i =
     (if 0 \<le> i \<and> i < int (length xs) then Inr (xs ! nat i)
      else Inl (OutOfBounds Read name i line))"

definition arr_write :: "string \<Rightarrow> nat \<Rightarrow> 'a list \<Rightarrow> int \<Rightarrow> 'a \<Rightarrow> fault + 'a list" where
  "arr_write name line xs i v =
     (if 0 \<le> i \<and> i < int (length xs) then Inr (xs[nat i := v])
      else Inl (OutOfBounds Write name i line))"

text \<open>
  Incrementing a signed counter that is still below some other \<open>int\<close> cannot overflow;
  the loops over \<open>int\<close> counters terminate by this fact.
\<close>

lemma sint_succ:
  fixes j n :: cint
  assumes "word_sless j n"
  shows "sint (j + 1) = sint j + 1"
proof -
  have "sint j < sint n" using assms by (simp add: word_sless_alt)
  moreover have "sint n < 2 ^ 31" using sint_lt [of n] by simp
  moreover have "- (2 ^ 31) \<le> sint j" using sint_ge [of j] by simp
  ultimately have "signed_take_bit 31 (sint j + 1) = sint j + 1"
    by (intro signed_take_bit_int_eq_self) auto
  then show ?thesis by (simp add: sint_word_ariths)
qed

section \<open>samples/ast/function\_test.c\<close>

record Point_t =
  Point_x :: cint
  Point_y :: cint

text \<open>The two globals \<open>int a, b = 0;\<close> (both zero at program start).\<close>

record globals =
  g_a :: cint
  g_b :: cint

definition globals_init :: globals where
  "globals_init = \<lparr>g_a = 0, g_b = 0\<rparr>"

definition add_point :: "Point_t \<Rightarrow> cint" where
  "add_point p = Point_x p + Point_y p"

definition add :: "cint \<Rightarrow> cint \<Rightarrow> cint" where
  "add val1 val2 = val1 + val2"

text \<open>\<open>main\<close>, statement by statement; the assertion is on line 30.\<close>

definition main_function_test :: "globals \<Rightarrow> fault + globals" where
  "main_function_test g0 =
     (let g1 = g0\<lparr>g_a := add 2 2\<rparr>;
          g2 = g1\<lparr>g_b := add 6 0\<rparr>;
          p1 = \<lparr>Point_x = g_a g2, Point_y = g_b g2\<rparr>;
          g3 = g2\<lparr>g_a := add_point p1\<rparr>
      in bindE (assert_at 30 (g_a g3 = 9)) (\<lambda>_. Inr g3))"

section \<open>samples/optimize-code/sign\_check.c\<close>

definition is_negative :: "cint \<Rightarrow> bool" where
  "is_negative a = (a \<noteq> 0 \<and> word_sless a 0)"

definition is_positive :: "cint \<Rightarrow> bool" where
  "is_positive a = (word_sle 0 a \<and> a \<noteq> 0)"

definition is_zero :: "cint \<Rightarrow> bool" where
  "is_zero a = (a = 0)"

text \<open>\<open>work\<close> draws its value from \<open>__VERIFIER_nondet_int()\<close>: the parameter \<open>nondet\<close>.\<close>

definition work :: "cint \<Rightarrow> cint" where
  "work nondet =
     (let a = nondet
      in if is_zero a then 0
         else if is_positive a then 1
         else - 1)"

definition main_sign_check :: "cint \<Rightarrow> fault + cint" where
  "main_sign_check nondet =
     bindE (assert_at 36 (is_negative (- 1))) (\<lambda>_.
     bindE (assert_at 37 (\<not> is_zero (- 1))) (\<lambda>_.
     bindE (assert_at 38 (is_zero 0)) (\<lambda>_.
     bindE (assert_at 39 (is_positive 0)) (\<lambda>_.
     bindE (assert_at 40 (is_positive 100)) (\<lambda>_.
     bindE (assert_at 41 (work nondet \<noteq> 0)) (\<lambda>_.
     Inr 0))))))"

section \<open>samples/optimize-code/str\_copy.c\<close>

text \<open>
  Memory is a store from addresses to bytes and a pointer is an address, so that
  \<open>dst\<close> and \<open>src\<close> may point anywhere, also into each other. Addresses are natural
  numbers (pointer arithmetic does not wrap); \<open>size_t\<close> is a 64-bit unsigned word.
  The first loop is \<^verbatim>\<open>while (n && ( *dst++ = *src++ )) n--;\<close>:
  when \<open>n\<close> is zero nothing further is evaluated; otherwise a byte is copied, both
  pointers move on, and \<open>n\<close> is decremented only if the byte was not NUL.
  The second loop is \<^verbatim>\<open>while (--n) *dst++ = '\0';\<close>, entered only when \<open>n\<close> is
  not zero. Both loops return the whole state they leave behind, \<open>strncpy_run\<close> is
  the body up to the \<open>return\<close>, and \<open>strncpy\<close> returns the memory and \<open>start\<close>.
\<close>

type_synonym addr = nat
type_synonym byte = "8 word"
type_synonym size_t = "64 word"
type_synonym mem = "addr \<Rightarrow> byte"

function copy_loop :: "mem \<Rightarrow> addr \<Rightarrow> addr \<Rightarrow> size_t \<Rightarrow> mem \<times> addr \<times> addr \<times> size_t" where
  "copy_loop m dst src n =
     (if n = 0 then (m, dst, src, n)
      else let c = m src; m' = m(dst := c)
           in if c \<noteq> 0 then copy_loop m' (dst + 1) (src + 1) (n - 1)
              else (m', dst + 1, src + 1, n))"
  by pat_completeness auto
termination
proof (relation "measure (\<lambda>(m, dst, src, n). unat n)")
  fix m :: mem and dst src :: addr and n :: size_t and c m'
  assume "n \<noteq> 0"
  then have "unat (n - 1) < unat n"
    by (simp add: unat_minus_one unat_gt_0)
  then show "((m', dst + 1, src + 1, n - 1), (m, dst, src, n))
             \<in> measure (\<lambda>(m, dst, src, n). unat n)"
    by simp
qed simp

function pad_loop :: "mem \<Rightarrow> addr \<Rightarrow> size_t \<Rightarrow> mem \<times> addr \<times> size_t" where
  "pad_loop m dst n =
     (let n' = n - 1
      in if n' \<noteq> 0 then pad_loop (m(dst := 0)) (dst + 1) n'
         else (m, dst, n'))"
  by pat_completeness auto
termination
proof (relation "measure (\<lambda>(m, dst, n). unat (n - 1))")
  fix m :: mem and dst :: addr and n n' :: size_t
  assume a: "n' = n - 1" and b: "n' \<noteq> 0"
  from b have "unat (n' - 1) < unat n'"
    by (simp add: unat_minus_one unat_gt_0)
  with a show "((m(dst := 0), dst + 1, n'), (m, dst, n))
             \<in> measure (\<lambda>(m, dst, n). unat (n - 1))"
    by simp
qed simp

definition strncpy_run :: "mem \<Rightarrow> addr \<Rightarrow> addr \<Rightarrow> size_t \<Rightarrow> mem \<times> addr \<times> size_t" where
  "strncpy_run m dst src n =
     (case copy_loop m dst src n of (m1, dst1, src1, n1) \<Rightarrow>
        if n1 \<noteq> 0 then pad_loop m1 dst1 n1 else (m1, dst1, n1))"

definition strncpy :: "mem \<Rightarrow> addr \<Rightarrow> addr \<Rightarrow> size_t \<Rightarrow> mem \<times> addr" where
  "strncpy m dst src n =
     (let start = dst in
      case strncpy_run m dst src n of (m2, dst2, n2) \<Rightarrow> (m2, start))"

declare copy_loop.simps [simp del] pad_loop.simps [simp del]

text \<open>
  The reference behaviour, in the words of the C standard: \<open>src\<close> holds a string of
  length \<open>L\<close> (\<open>L\<close> bytes that are not NUL, then a NUL); the first \<open>k\<close> bytes of
  \<open>dst\<close> receive the string, cut at \<open>k\<close> bytes or padded with NUL up to \<open>k\<close> bytes,
  and nothing else changes. The standard leaves the copy undefined when the two
  objects overlap, so the comparison is made where these \<open>k\<close> bytes and the string
  with its NUL are \<open>separate\<close>.
\<close>

definition is_cstring :: "mem \<Rightarrow> addr \<Rightarrow> nat \<Rightarrow> bool" where
  "is_cstring m src L = ((\<forall>i \<in> {0..<L}. m (src + i) \<noteq> 0) \<and> m (src + L) = 0)"

definition separate :: "addr \<Rightarrow> nat \<Rightarrow> addr \<Rightarrow> nat \<Rightarrow> bool" where
  "separate dst k src L = (dst + k \<le> src \<or> src + L < dst)"

definition strncpy_ref :: "mem \<Rightarrow> addr \<Rightarrow> addr \<Rightarrow> nat \<Rightarrow> nat \<Rightarrow> mem" where
  "strncpy_ref m dst src L k =
     (\<lambda>a. if dst \<le> a \<and> a < dst + k
          then (if a - dst < L then m (src + (a - dst)) else 0)
          else m a)"

definition example_mem :: mem where
  "example_mem = (\<lambda>a. 1)(10 := 97, 11 := 98, 12 := 0)"

section \<open>samples/bubble\_sort.c\<close>

text \<open>
  \<open>buggy_bubble_sort(int arr[], int n)\<close>: the array is a list of \<open>int\<close>, \<open>n\<close>, \<open>i\<close>
  and \<open>j\<close> are 32-bit. The body of the inner loop reads \<open>arr[j]\<close> and \<open>arr[j + 1]\<close>
  on line 7 and, when they are out of order, swaps them on lines 8 to 10.
\<close>

definition bubble_body :: "cint list \<Rightarrow> cint \<Rightarrow> fault + cint list" where
  "bubble_body arr j =
     bindE (arr_read ''arr'' 7 arr (sint j)) (\<lambda>aj.
     bindE (arr_read ''arr'' 7 arr (sint (j + 1))) (\<lambda>aj1.
       if word_sless aj1 aj then
         bindE (arr_read ''arr'' 8 arr (sint j)) (\<lambda>temp.
         bindE (arr_read ''arr'' 9 arr (sint (j + 1))) (\<lambda>v.
         bindE (arr_write ''arr'' 9 arr (sint j) v) (\<lambda>arr1.
         arr_write ''arr'' 10 arr1 (sint (j + 1)) temp)))
       else Inr arr))"

function bubble_inner :: "cint list \<Rightarrow> cint \<Rightarrow> cint \<Rightarrow> fault + cint list" where
  "bubble_inner arr n j =
     (if word_sless j n
      then bindE (bubble_body arr j) (\<lambda>arr'. bubble_inner arr' n (j + 1))
      else Inr arr)"
  by pat_completeness auto
termination
  by (relation "measure (\<lambda>(arr, n, j). nat (sint n - sint j))")
     (auto simp: sint_succ word_sless_alt)

function bubble_outer :: "cint list \<Rightarrow> cint \<Rightarrow> cint \<Rightarrow> fault + cint list" where
  "bubble_outer arr n i =
     (if word_sless i n
      then bindE (bubble_inner arr n 0) (\<lambda>arr'. bubble_outer arr' n (i + 1))
      else Inr arr)"
  by pat_completeness auto
termination
  by (relation "measure (\<lambda>(arr, n, i). nat (sint n - sint i))")
     (auto simp: sint_succ word_sless_alt)

definition buggy_bubble_sort :: "cint list \<Rightarrow> cint \<Rightarrow> fault + cint list" where
  "buggy_bubble_sort arr n = bubble_outer arr n 0"

declare bubble_inner.simps [simp del] bubble_outer.simps [simp del]

section \<open>samples/dijkstra\_safe.c and samples/dijkstra\_unsafe.c\<close>

text \<open>
  Both files fix \<open>V = 5\<close>. The loop counters, \<open>min_index\<close>, \<open>u\<close> and \<open>src\<close> are
  integers that only count up to \<open>V\<close> or are used as an index, never in arithmetic
  that could overflow; distances and weights are 32-bit and add with wrap-around.
  The local arrays \<open>dist\<close> and \<open>sptSet\<close> have \<open>V\<close> cells of indeterminate content
  (\<open>junk\<close>). The parameter \<open>int graph[V][V]\<close> is a list of rows: \<open>graph[u][v]\<close>
  first selects row \<open>u\<close>, then cell \<open>v\<close> of it.
\<close>

definition V :: int where
  "V = 5"

definition local_array :: "(nat \<Rightarrow> cint) \<Rightarrow> cint list" where
  "local_array junk = map junk [0..<nat V]"

definition graph_read :: "nat \<Rightarrow> cint list list \<Rightarrow> int \<Rightarrow> int \<Rightarrow> fault + cint" where
  "graph_read line graph u v =
     bindE (arr_read ''graph'' line graph u) (\<lambda>row. arr_read ''graph[u]'' line row v)"

definition no_junk :: "nat \<Rightarrow> cint" where
  "no_junk k = 0"

definition square_graph :: "cint list list \<Rightarrow> bool" where
  "square_graph graph = (length graph = nat V \<and> (\<forall>row \<in> set graph. length row = nat V))"

text \<open>A vertex \<open>u\<close> that \<open>sptSet\<close> has not marked yet.\<close>

definition unvisited :: "cint list \<Rightarrow> int \<Rightarrow> bool" where
  "unvisited sptSet u = (0 \<le> u \<and> u < V \<and> sptSet ! nat u = 0)"

subsection \<open>dijkstra\_safe.c\<close>

definition minDistance_safe_body ::
  "cint list \<Rightarrow> cint list \<Rightarrow> int \<Rightarrow> cint \<times> int \<Rightarrow> fault + cint \<times> int" where
  "minDistance_safe_body dist sptSet v st =
     (case st of (mn, min_index) \<Rightarrow>
        bindE (arr_read ''sptSet'' 11 sptSet v) (\<lambda>s.
          if s = 0 then
            bindE (arr_read ''dist'' 11 dist v) (\<lambda>d.
              if word_sle d mn then
                bindE (arr_read ''dist'' 12 dist v) (\<lambda>d'. Inr (d', v))
              else Inr (mn, min_index))
          else Inr (mn, min_index)))"

function minDistance_safe_loop ::
  "cint list \<Rightarrow> cint list \<Rightarrow> int \<Rightarrow> cint \<times> int \<Rightarrow> fault + int" where
  "minDistance_safe_loop dist sptSet v st =
     (if v < V
      then bindE (minDistance_safe_body dist sptSet v st)
             (\<lambda>st'. minDistance_safe_loop dist sptSet (v + 1) st')
      else Inr (snd st))"
  by pat_completeness auto
termination
  by (relation "measure (\<lambda>(dist, sptSet, v, st). nat (V - v))") auto

definition minDistance_safe :: "cint list \<Rightarrow> cint list \<Rightarrow> fault + int" where
  "minDistance_safe dist sptSet = minDistance_safe_loop dist sptSet 0 (INT_MAX, - 1)"

function printSolution_safe_loop :: "cint list \<Rightarrow> int \<Rightarrow> fault + (int \<times> cint) list" where
  "printSolution_safe_loop dist i =
     (if i < V
      then bindE (arr_read ''dist'' 22 dist i) (\<lambda>d.
           bindE (printSolution_safe_loop dist (i + 1)) (\<lambda>out. Inr ((i, d) # out)))
      else Inr [])"
  by pat_completeness auto
termination
  by (relation "measure (\<lambda>(dist, i). nat (V - i))") auto

definition printSolution_safe :: "cint list \<Rightarrow> fault + (int \<times> cint) list" where
  "printSolution_safe dist = printSolution_safe_loop dist 0"

function dijkstra_safe_init :: "cint list \<times> cint list \<Rightarrow> int \<Rightarrow> fault + cint list \<times> cint list" where
  "dijkstra_safe_init st i =
     (if i < V
      then bindE (arr_write ''dist'' 33 (fst st) i INT_MAX) (\<lambda>dist'.
           bindE (arr_write ''sptSet'' 34 (snd st) i 0) (\<lambda>sptSet'.
           dijkstra_safe_init (dist', sptSet') (i + 1)))
      else Inr st)"
  by pat_completeness auto
termination
  by (relation "measure (\<lambda>(st, i). nat (V - i))") auto

definition dijkstra_safe_relax ::
  "cint list list \<Rightarrow> cint list \<Rightarrow> int \<Rightarrow> int \<Rightarrow> cint list \<Rightarrow> fault + cint list" where
  "dijkstra_safe_relax graph sptSet u v dist =
     bindE (arr_read ''sptSet'' 46 sptSet v) (\<lambda>s.
       if s = 0 then
         bindE (graph_read 46 graph u v) (\<lambda>g.
           if g \<noteq> 0 then
             bindE (arr_read ''dist'' 46 dist u) (\<lambda>du.
               if du \<noteq> INT_MAX then
                 bindE (arr_read ''dist'' 47 dist u) (\<lambda>du1.
                 bindE (graph_read 47 graph u v) (\<lambda>g1.
                 bindE (arr_read ''dist'' 47 dist v) (\<lambda>dv.
                   if word_sless (du1 + g1) dv then
                     bindE (arr_read ''dist'' 48 dist u) (\<lambda>du2.
                     bindE (graph_read 48 graph u v) (\<lambda>g2.
                     arr_write ''dist'' 48 dist v (du2 + g2)))
                   else Inr dist)))
               else Inr dist)
           else Inr dist)
       else Inr dist)"

function dijkstra_safe_inner ::
  "cint list list \<Rightarrow> cint list \<Rightarrow> int \<Rightarrow> int \<Rightarrow> cint list \<Rightarrow> fault + cint list" where
  "dijkstra_safe_inner graph sptSet u v dist =
     (if v < V
      then bindE (dijkstra_safe_relax graph sptSet u v dist)
             (\<lambda>dist'. dijkstra_safe_inner graph sptSet u (v + 1) dist')
      else Inr dist)"
  by pat_completeness auto
termination
  by (relation "measure (\<lambda>(graph, sptSet, u, v, dist). nat (V - v))") auto

function dijkstra_safe_outer ::
  "cint list list \<Rightarrow> int \<Rightarrow> cint list \<times> cint list \<Rightarrow> fault + cint list \<times> cint list" where
  "dijkstra_safe_outer graph count st =
     (if count < V - 1
      then bindE (minDistance_safe (fst st) (snd st)) (\<lambda>u.
           bindE (arr_write ''sptSet'' 42 (snd st) u 1) (\<lambda>sptSet'.
           bindE (dijkstra_safe_inner graph sptSet' u 0 (fst st)) (\<lambda>dist'.
           dijkstra_safe_outer graph (count + 1) (dist', sptSet'))))
      else Inr st)"
  by pat_completeness auto
termination
  by (relation "measure (\<lambda>(graph, count, st). nat (V - 1 - count))") auto

definition dijkstra_safe ::
  "(nat \<Rightarrow> cint) \<Rightarrow> (nat \<Rightarrow> cint) \<Rightarrow> cint list list \<Rightarrow> int \<Rightarrow> fault + (int \<times> cint) list" where
  "dijkstra_safe junk_dist junk_sptSet graph src =
     (let dist = local_array junk_dist; sptSet = local_array junk_sptSet
      in bindE (dijkstra_safe_init (dist, sptSet) 0) (\<lambda>(dist1, sptSet1).
         bindE (arr_write ''dist'' 37 dist1 src 0) (\<lambda>dist2.
         bindE (dijkstra_safe_outer graph 0 (dist2, sptSet1)) (\<lambda>(dist3, sptSet3).
         printSolution_safe dist3))))"

definition main_graph :: "cint list list" where
  "main_graph =
     [[0, 10, 0, 30, 100], [10, 0, 50, 0, 0], [0, 50, 0, 20, 10],
      [30, 0, 20, 0, 60], [100, 0, 10, 60, 0]]"

definition main_dijkstra_safe :: "(nat \<Rightarrow> cint) \<Rightarrow> (nat \<Rightarrow> cint) \<Rightarrow> fault + cint" where
  "main_dijkstra_safe junk_dist junk_sptSet =
     bindE (dijkstra_safe junk_dist junk_sptSet main_graph 0) (\<lambda>_. Inr 0)"

declare minDistance_safe_loop.simps [simp del] printSolution_safe_loop.simps [simp del]
  dijkstra_safe_init.simps [simp del] dijkstra_safe_inner.simps [simp del]
  dijkstra_safe_outer.simps [simp del]

subsection \<open>dijkstra\_unsafe.c\<close>

definition minDistance_unsafe_body ::
  "cint list \<Rightarrow> cint list \<Rightarrow> int \<Rightarrow> cint \<times> int \<Rightarrow> fault + cint \<times> int" where
  "minDistance_unsafe_body dist sptSet v st =
     (case st of (mn, min_index) \<Rightarrow>
        bindE (arr_read ''sptSet'' 10 sptSet v) (\<lambda>s.
          if s = 0 then
            bindE (arr_read ''dist'' 11 dist v) (\<lambda>d.
              if word_sle d mn then
                bindE (arr_read ''dist'' 12 dist v) (\<lambda>d'. Inr (d', v))
              else Inr (mn, min_index))
          else Inr (mn, min_index)))"

function minDistance_unsafe_loop ::
  "cint list \<Rightarrow> cint list \<Rightarrow> int \<Rightarrow> cint \<times> int \<Rightarrow> fault + int" where
  "minDistance_unsafe_loop dist sptSet v st =
     (if v \<le> V
      then bindE (minDistance_unsafe_body dist sptSet v st)
             (\<lambda>st'. minDistance_unsafe_loop dist sptSet (v + 1) st')
      else Inr (snd st))"
  by pat_completeness auto
termination
  by (relation "measure (\<lambda>(dist, sptSet, v, st). nat (V + 1 - v))") auto

definition minDistance_unsafe :: "cint list \<Rightarrow> cint list \<Rightarrow> fault + int" where
  "minDistance_unsafe dist sptSet = minDistance_unsafe_loop dist sptSet 0 (INT_MAX, - 1)"

function printSolution_unsafe_loop :: "cint list \<Rightarrow> int \<Rightarrow> fault + (int \<times> cint) list" where
  "printSolution_unsafe_loop dist i =
     (if i < V
      then bindE (arr_read ''dist'' 23 dist i) (\<lambda>d.
           bindE (printSolution_unsafe_loop dist (i + 1)) (\<lambda>out. Inr ((i, d) # out)))
      else Inr [])"
  by pat_completeness auto
termination
  by (relation "measure (\<lambda>(dist, i). nat (V - i))") auto

definition printSolution_unsafe :: "cint list \<Rightarrow> fault + (int \<times> cint) list" where
  "printSolution_unsafe dist = printSolution_unsafe_loop dist 0"

function dijkstra_unsafe_init :: "cint list \<times> cint list \<Rightarrow> int \<Rightarrow> fault + cint list \<times> cint list" where
  "dijkstra_unsafe_init st i =
     (if i \<le> V
      then bindE (arr_write ''dist'' 33 (fst st) i INT_MAX) (\<lambda>dist'.
           bindE (arr_write ''sptSet'' 34 (snd st) i 0) (\<lambda>sptSet'.
           dijkstra_unsafe_init (dist', sptSet') (i + 1)))
      else Inr st)"
  by pat_completeness auto
termination
  by (relation "measure (\<lambda>(st, i). nat (V + 1 - i))") auto

definition dijkstra_unsafe_relax ::
  "cint list list \<Rightarrow> cint list \<Rightarrow> int \<Rightarrow> int \<Rightarrow> cint list \<Rightarrow> fault + cint list" where
  "dijkstra_unsafe_relax graph sptSet u v dist =
     bindE (arr_read ''sptSet'' 45 sptSet v) (\<lambda>s.
       if s = 0 then
         bindE (graph_read 45 graph u v) (\<lambda>g.
           if g \<noteq> 0 then
             bindE (arr_read ''dist'' 45 dist u) (\<lambda>du.
               if du \<noteq> INT_MAX then
                 bindE (arr_read ''dist'' 46 dist u) (\<lambda>du1.
                 bindE (graph_read 46 graph u v) (\<lambda>g1.
                 bindE (arr_read ''dist'' 46 dist v) (\<lambda>dv.
                   if word_sless (du1 + g1) dv then
                     bindE (arr_read ''dist'' 47 dist u) (\<lambda>du2.
                     bindE (graph_read 47 graph u v) (\<lambda>g2.
                     arr_write ''dist'' 47 dist v (du2 + g2)))
                   else Inr dist)))
               else Inr dist)
           else Inr dist)
       else Inr dist)"

function dijkstra_unsafe_inner ::
  "cint list list \<Rightarrow> cint list \<Rightarrow> int \<Rightarrow> int \<Rightarrow> cint list \<Rightarrow> fault + cint list" where
  "dijkstra_unsafe_inner graph sptSet u v dist =
     (if v < V
      then bindE (dijkstra_unsafe_relax graph sptSet u v dist)
             (\<lambda>dist'. dijkstra_unsafe_inner graph sptSet u (v + 1) dist')
      else Inr dist)"
  by pat_completeness auto
termination
  by (relation "measure (\<lambda>(graph, sptSet, u, v, dist). nat (V - v))") auto

function dijkstra_unsafe_outer ::
  "cint list list \<Rightarrow> int \<Rightarrow> cint list \<times> cint list \<Rightarrow> fault + cint list \<times> cint list" where
  "dijkstra_unsafe_outer graph count st =
     (if count < V - 1
      then bindE (minDistance_unsafe (fst st) (snd st)) (\<lambda>u.
           bindE (arr_write ''sptSet'' 41 (snd st) u 1) (\<lambda>sptSet'.
           bindE (dijkstra_unsafe_inner graph sptSet' u 0 (fst st)) (\<lambda>dist'.
           dijkstra_unsafe_outer graph (count + 1) (dist', sptSet'))))
      else Inr st)"
  by pat_completeness auto
termination
  by (relation "measure (\<lambda>(graph, count, st). nat (V - 1 - count))") auto

definition dijkstra_unsafe ::
  "(nat \<Rightarrow> cint) \<Rightarrow> (nat \<Rightarrow> cint) \<Rightarrow> cint list list \<Rightarrow> int \<Rightarrow> fault + (int \<times> cint) list" where
  "dijkstra_unsafe junk_dist junk_sptSet graph src =
     (let dist = local_array junk_dist; sptSet = local_array junk_sptSet
      in bindE (dijkstra_unsafe_init (dist, sptSet) 0) (\<lambda>(dist1, sptSet1).
         bindE (arr_write ''dist'' 37 dist1 src 0) (\<lambda>dist2.
         bindE (dijkstra_unsafe_outer graph 0 (dist2, sptSet1)) (\<lambda>(dist3, sptSet3).
         printSolution_unsafe dist3))))"

definition main_dijkstra_unsafe :: "(nat \<Rightarrow> cint) \<Rightarrow> (nat \<Rightarrow> cint) \<Rightarrow> fault + cint" where
  "main_dijkstra_unsafe junk_dist junk_sptSet =
     bindE (dijkstra_unsafe junk_dist junk_sptSet main_graph 0) (\<lambda>_. Inr 0)"

declare minDistance_unsafe_loop.simps [simp del] printSolution_unsafe_loop.simps [simp del]
  dijkstra_unsafe_init.simps [simp del] dijkstra_unsafe_inner.simps [simp del]
  dijkstra_unsafe_outer.simps [simp del]

section \<open>samples/timer/src/timer.c and clock.c\<close>

text \<open>
  The heap is abstract: each block is unallocated, live or freed, and a pointer is the
  name of a block. \<open>free\<close> of a live block frees it; \<open>free\<close> of a freed block is a
  double free, and an access through a pointer to a freed block is a use after free.
  Both are recorded as events with the file and line, and the run goes on, so that a
  run shows every violation it commits. \<open>malloc\<close> is taken to succeed: it returns some
  block that is not live.

  \<open>timer_tick\<close> is a transition system over its program points, named after the
  lines of timer.c: the call of \<open>clock_get_formatted_time\<close> (9), the two calls of
  \<open>free\<close> (11, 12), the initialisation, test and step of the \<open>for\<close> loop (14), the
  assignment to \<open>clock->unix_time\<close> (15), the \<open>printf\<close> that reads \<open>time_str\<close>
  (16), \<open>sleep\<close> (18) and the final \<open>printf\<close> (20). The value that \<open>time(NULL)\<close>
  returns and the block that \<open>malloc\<close> returns are chosen freely by the step.
  \<open>clock_get_formatted_time\<close> of clock.c allocates the buffer (line 10), reads the
  \<open>Clock\<close> (line 11) and writes the buffer (line 12).
\<close>

datatype status = Unallocated | Live | Freed

type_synonym location = "string \<times> nat"

datatype event =
    DoubleFree location
  | UseAfterFree location
  | InvalidFree location
  | InvalidAccess location

datatype label = L9 | L11 | L12 | L14_init | L14_test | L15 | L16 | L18 | L14_step | L20 | Returned

record tick_state =
  pc :: label
  time_str :: nat
  remaining :: cint
  unix_time :: nat
  heap :: "nat \<Rightarrow> status"
  events :: "event list"

definition do_free :: "location \<Rightarrow> nat \<Rightarrow> tick_state \<Rightarrow> tick_state" where
  "do_free loc p s =
     (case heap s p of
        Live \<Rightarrow> s\<lparr>heap := (heap s)(p := Freed)\<rparr>
      | Freed \<Rightarrow> s\<lparr>events := events s @ [DoubleFree loc]\<rparr>
      | Unallocated \<Rightarrow> s\<lparr>events := events s @ [InvalidFree loc]\<rparr>)"

definition do_access :: "location \<Rightarrow> nat \<Rightarrow> tick_state \<Rightarrow> tick_state" where
  "do_access loc p s =
     (case heap s p of
        Live \<Rightarrow> s
      | Freed \<Rightarrow> s\<lparr>events := events s @ [UseAfterFree loc]\<rparr>
      | Unallocated \<Rightarrow> s\<lparr>events := events s @ [InvalidAccess loc]\<rparr>)"

definition clock_get_formatted_time :: "nat \<Rightarrow> nat \<Rightarrow> tick_state \<Rightarrow> tick_state" where
  "clock_get_formatted_time clock buffer s =
     do_access (''clock.c'', 12) buffer
       (do_access (''clock.c'', 11) clock
          (s\<lparr>heap := (heap s)(buffer := Live)\<rparr>))"

inductive timer_tick_step :: "nat \<Rightarrow> cint \<Rightarrow> cint \<Rightarrow> tick_state \<Rightarrow> tick_state \<Rightarrow> bool"
  for clock :: nat and seconds :: cint and tick_rate :: cint where
  get_time_str:
    "pc s = L9 \<Longrightarrow> heap s buffer \<noteq> Live \<Longrightarrow>
     timer_tick_step clock seconds tick_rate s
       ((clock_get_formatted_time clock buffer s)\<lparr>pc := L11, time_str := buffer\<rparr>)"
| first_free:
    "pc s = L11 \<Longrightarrow>
     timer_tick_step clock seconds tick_rate s
       ((do_free (''timer.c'', 11) (time_str s) s)\<lparr>pc := L12\<rparr>)"
| second_free:
    "pc s = L12 \<Longrightarrow>
     timer_tick_step clock seconds tick_rate s
       ((do_free (''timer.c'', 12) (time_str s) s)\<lparr>pc := L14_init\<rparr>)"
| loop_init:
    "pc s = L14_init \<Longrightarrow>
     timer_tick_step clock seconds tick_rate s (s\<lparr>pc := L14_test, remaining := seconds\<rparr>)"
| loop_enter:
    "pc s = L14_test \<Longrightarrow> word_sless 0 (remaining s) \<Longrightarrow>
     timer_tick_step clock seconds tick_rate s (s\<lparr>pc := L15\<rparr>)"
| loop_exit:
    "pc s = L14_test \<Longrightarrow> \<not> word_sless 0 (remaining s) \<Longrightarrow>
     timer_tick_step clock seconds tick_rate s (s\<lparr>pc := L20\<rparr>)"
| set_unix_time:
    "pc s = L15 \<Longrightarrow>
     timer_tick_step clock seconds tick_rate s
       ((do_access (''timer.c'', 15) clock s)\<lparr>pc := L16, unix_time := now\<rparr>)"
| print_time_left:
    "pc s = L16 \<Longrightarrow>
     timer_tick_step clock seconds tick_rate s
       ((do_access (''timer.c'', 16) (time_str s) s)\<lparr>pc := L18\<rparr>)"
| sleep_tick:
    "pc s = L18 \<Longrightarrow>
     timer_tick_step clock seconds tick_rate s (s\<lparr>pc := L14_step\<rparr>)"
| loop_step:
    "pc s = L14_step \<Longrightarrow>
     timer_tick_step clock seconds tick_rate s
       (s\<lparr>pc := L14_test, remaining := remaining s - 1\<rparr>)"
| print_over:
    "pc s = L20 \<Longrightarrow>
     timer_tick_step clock seconds tick_rate s (s\<lparr>pc := Returned\<rparr>)"

definition timer_tick_run :: "nat \<Rightarrow> cint \<Rightarrow> cint \<Rightarrow> tick_state \<Rightarrow> tick_state \<Rightarrow> bool" where
  "timer_tick_run clock seconds tick_rate = (timer_tick_step clock seconds tick_rate)\<^sup>*\<^sup>*"

definition timer_tick_entry :: "nat \<Rightarrow> tick_state \<Rightarrow> bool" where
  "timer_tick_entry clock s = (pc s = L9 \<and> events s = [] \<and> heap s clock = Live)"

definition iterations :: "cint \<Rightarrow> nat" where
  "iterations seconds = nat (sint seconds)"

definition expected_events :: "nat \<Rightarrow> event list" where
  "expected_events k = DoubleFree (''timer.c'', 12) # replicate k (UseAfterFree (''timer.c'', 16))"

text \<open>
  What holds whenever control is at a program point: the double free is recorded once
  the second \<open>free\<close> has run, and one use after free for every iteration completed.
\<close>

definition tick_inv :: "nat \<Rightarrow> cint \<Rightarrow> tick_state \<Rightarrow> bool" where
  "tick_inv clock seconds s =
     (heap s clock = Live \<and>
      (case pc s of
         L9 \<Rightarrow> events s = []
       | L11 \<Rightarrow> events s = [] \<and> heap s (time_str s) = Live \<and> time_str s \<noteq> clock
       | L12 \<Rightarrow> events s = [] \<and> heap s (time_str s) = Freed
       | L14_init \<Rightarrow> events s = expected_events 0 \<and> heap s (time_str s) = Freed
       | L14_test \<Rightarrow> heap s (time_str s) = Freed \<and> sint (remaining s) \<le> sint seconds \<and>
            (0 \<le> sint (remaining s) \<or> remaining s = seconds) \<and>
            events s = expected_events (iterations seconds - iterations (remaining s))
       | L15 \<Rightarrow> heap s (time_str s) = Freed \<and> sint (remaining s) \<le> sint seconds \<and>
            0 < sint (remaining s) \<and>
            events s = expected_events (iterations seconds - iterations (remaining s))
       | L16 \<Rightarrow> heap s (time_str s) = Freed \<and> sint (remaining s) \<le> sint seconds \<and>
            0 < sint (remaining s) \<and>
            events s = expected_events (iterations seconds - iterations (remaining s))
       | L18 \<Rightarrow> heap s (time_str s) = Freed \<and> sint (remaining s) \<le> sint seconds \<and>
            0 < sint (remaining s) \<and>
            events s = expected_events (Suc (iterations seconds - iterations (remaining s)))
       | L14_step \<Rightarrow> heap s (time_str s) = Freed \<and> sint (remaining s) \<le> sint seconds \<and>
            0 < sint (remaining s) \<and>
            events s = expected_events (Suc (iterations seconds - iterations (remaining s)))
       | L20 \<Rightarrow> events s = expected_events (iterations seconds)
       | Returned \<Rightarrow> events s = expected_events (iterations seconds)))"

text \<open>A concrete entry state: block 0 is the live \<open>Clock\<close>, nothing else is allocated.\<close>

definition example_entry :: tick_state where
  "example_entry =
     \<lparr>pc = L9, time_str = 0, remaining = 0, unix_time = 0,
      heap = (\<lambda>p. Unallocated)(0 := Live), events = []\<rparr>"

section \<open>Results: function\_test.c\<close>

text \<open>
  Claim C10. In \<open>main\<close> of function\_test.c the calls give \<open>a = add(2, 2) = 4\<close> and
  \<open>b = add(6, 0) = 6\<close>, \<open>add_point\<close> on the point \<open>{4, 6}\<close> returns 10, and so the
  assertion \<open>assert(a == 9)\<close> on line 30 fails on every execution, whatever the globals
  held before.
\<close>

theorem main_function_test_assertion_fails:
  "add 2 2 = 4 \<and> add 6 0 = 6
   \<and> add_point \<lparr>Point_x = 4, Point_y = 6\<rparr> = 10
   \<and> main_function_test g0 = Inl (AssertionFailed 30)"
  by (simp add: main_function_test_def add_def add_point_def bindE_def assert_at_def Let_def)

section \<open>Results: sign\_check.c\<close>

text \<open>
  Claim C9. For every \<open>int a\<close>, \<open>is_positive a\<close> holds iff \<open>a > 0\<close> and
  \<open>is_negative a\<close> holds iff \<open>a < 0\<close>; exactly one of \<open>is_negative a\<close>, \<open>is_zero a\<close>,
  \<open>is_positive a\<close> holds; \<open>is_positive 0\<close> is false, and \<open>main\<close> passes the first three
  assertions and fails at \<open>assert(is_positive(0))\<close> on line 39, whatever
  \<open>__VERIFIER_nondet_int\<close> would return.
\<close>

theorem sign_check_trichotomy:
  "is_positive a = (0 < sint a)
   \<and> is_negative a = (sint a < 0)
   \<and> length (filter id [is_negative a, is_zero a, is_positive a]) = 1
   \<and> is_positive 0 = False
   \<and> main_sign_check nondet = Inl (AssertionFailed 39)"
proof -
  have z: "(a = 0) = (sint a = 0)"
    by (metis signed_eq_0_iff)
  have p: "is_positive a = (0 < sint a)"
    unfolding is_positive_def word_sle_eq z by auto
  have n: "is_negative a = (sint a < 0)"
    unfolding is_negative_def word_sless_alt z by auto
  have t: "length (filter id [is_negative a, is_zero a, is_positive a]) = 1"
    unfolding p n is_zero_def z by auto
  have m: "main_sign_check nondet = Inl (AssertionFailed 39)"
    by (simp add: main_sign_check_def bindE_def assert_at_def is_negative_def
        is_zero_def is_positive_def word_sless_alt)
  from p n t m show ?thesis
    by (simp add: is_positive_def)
qed

section \<open>Results: str\_copy.c\<close>

text \<open>
  The first loop, on a string of length \<open>L\<close> that the destination does not overlap:
  with \<open>L < n\<close> it copies the \<open>L\<close> characters and the NUL and leaves \<open>n - L\<close> in \<open>n\<close>
  (the iteration that copies the NUL does not decrement); otherwise it copies \<open>n\<close>
  characters and leaves \<open>n = 0\<close>.
\<close>

lemma is_cstring_iff:
  "is_cstring m src L = ((\<forall>i<L. m (src + i) \<noteq> 0) \<and> m (src + L) = 0)"
  by (auto simp: is_cstring_def)

lemma is_cstring_step:
  assumes "is_cstring m src (Suc L)" and "\<forall>j \<le> Suc L. dst \<noteq> src + j"
  shows "is_cstring (m(dst := c)) (src + 1) L"
proof -
  have "\<forall>i<L. (m(dst := c)) (src + 1 + i) \<noteq> 0"
  proof (intro allI impI)
    fix i assume "i < L"
    then have "Suc i \<le> Suc L" and "Suc i < Suc L" by simp_all
    with assms have "dst \<noteq> src + Suc i" and "m (src + Suc i) \<noteq> 0"
      unfolding is_cstring_iff by blast+
    then show "(m(dst := c)) (src + 1 + i) \<noteq> 0" by simp
  qed
  moreover have "(m(dst := c)) (src + 1 + L) = 0"
    using assms by (auto simp: is_cstring_iff)
  ultimately show ?thesis by (simp add: is_cstring_iff)
qed

lemma copy_loop_spec:
  "is_cstring m src L \<Longrightarrow> separate dst (unat n) src L \<Longrightarrow>
   copy_loop m dst src n =
     (if L < unat n
      then (strncpy_ref m dst src L (Suc L), dst + Suc L, src + Suc L, n - of_nat L)
      else (strncpy_ref m dst src L (unat n), dst + unat n, src + unat n, 0))"
proof (induction L arbitrary: m dst src n)
  case 0
  then have z: "m src = 0" by (simp add: is_cstring_iff)
  show ?case
  proof (cases "n = 0")
    case True
    then show ?thesis by (subst copy_loop.simps) (auto simp: strncpy_ref_def fun_eq_iff)
  next
    case False
    then have "0 < unat n" by (simp add: unat_gt_0)
    with False z show ?thesis
      by (subst copy_loop.simps) (auto simp: strncpy_ref_def fun_eq_iff)
  qed
next
  case (Suc L)
  show ?case
  proof (cases "n = 0")
    case True
    then show ?thesis by (subst copy_loop.simps) (auto simp: strncpy_ref_def fun_eq_iff)
  next
    case False
    then have pos: "0 < unat n" by (simp add: unat_gt_0)
    then have un: "unat (n - 1) = unat n - 1" using False by (simp add: unat_minus_one)
    from Suc.prems have nz: "m src \<noteq> 0" by (auto simp: is_cstring_iff)
    from Suc.prems pos have ne: "\<forall>j \<le> Suc L. dst \<noteq> src + j"
      by (auto simp: separate_def)
    let ?m = "m(dst := m src)"
    have cs: "is_cstring ?m (src + 1) L"
      using Suc.prems(1) ne by (rule is_cstring_step)
    have sp: "separate (dst + 1) (unat (n - 1)) (src + 1) L"
      using Suc.prems(2) pos un by (auto simp: separate_def)
    note ih = Suc.IH [OF cs sp]
    have mem1: "strncpy_ref ?m (dst + 1) (src + 1) L k = strncpy_ref m dst src (Suc L) (Suc k)" for k
    proof (rule ext)
      fix a
      show "strncpy_ref ?m (dst + 1) (src + 1) L k a = strncpy_ref m dst src (Suc L) (Suc k) a"
      proof (cases "a = dst")
        case True
        then show ?thesis by (simp add: strncpy_ref_def)
      next
        case False
        have "a - (dst + 1) < L \<Longrightarrow> dst \<noteq> src + 1 + (a - (dst + 1))"
          using ne [rule_format, of "Suc (a - (dst + 1))"] by simp
        moreover have "dst + 1 \<le> a \<Longrightarrow> src + 1 + (a - (dst + 1)) = src + (a - dst)"
          by simp
        moreover have "dst + 1 \<le> a \<Longrightarrow> (a - (dst + 1) < L) = (a - dst < Suc L)"
          by auto
        ultimately show ?thesis
          using False by (auto simp: strncpy_ref_def)
      qed
    qed
    have w: "n - 1 - of_nat L = n - of_nat (Suc L)" by simp
    have step: "copy_loop m dst src n = copy_loop ?m (dst + 1) (src + 1) (n - 1)"
      using False nz by (subst copy_loop.simps) (simp add: Let_def)
    have k: "Suc (unat n - 1) = unat n" using pos by simp
    show ?thesis
      unfolding step ih mem1 un k using pos
      by (auto simp: diff_diff_eq)
  qed
qed

lemma pad_loop_spec:
  "unat n = Suc k \<Longrightarrow>
   pad_loop m dst n = ((\<lambda>a. if dst \<le> a \<and> a < dst + k then 0 else m a), dst + k, 0)"
proof (induction k arbitrary: m dst n)
  case 0
  then have "unat n = unat (1 :: size_t)" by simp
  then have "n = 1" by (simp only: word_unat_eq_iff)
  then have "n - 1 = 0" by simp
  then show ?case by (subst pad_loop.simps) (auto simp: Let_def fun_eq_iff)
next
  case (Suc k)
  then have n0: "n \<noteq> 0" by auto
  then have un: "unat (n - 1) = Suc k" using Suc.prems by (simp add: unat_minus_one)
  then have n1: "n - 1 \<noteq> 0" by auto
  have step: "pad_loop m dst n = pad_loop (m(dst := 0)) (dst + 1) (n - 1)"
    using n1 by (subst pad_loop.simps) (simp add: Let_def)
  show ?case
    unfolding step Suc.IH [OF un] by (auto simp: fun_eq_iff)
qed

lemma unat_sub_of_nat:
  fixes n :: size_t
  assumes "L < unat n"
  shows "unat (n - of_nat L) = unat n - L"
  by (metis (no_types, lifting) assms le_unat_uoi less_or_eq_imp_le unat_sub
    word_less_eq_iff_unsigned)

lemma strncpy_run_spec:
  assumes "is_cstring m src L" and "separate dst (unat n) src L"
  shows "strncpy_run m dst src n = (strncpy_ref m dst src L (unat n), dst + unat n, 0)"
proof (cases "L < unat n")
  case False
  then show ?thesis
    by (simp add: strncpy_run_def copy_loop_spec [OF assms])
next
  case True
  then have u: "unat (n - of_nat L) = Suc (unat n - Suc L)"
    by (simp add: unat_sub_of_nat)
  then have nz: "n - of_nat L \<noteq> 0" by auto
  have "strncpy_run m dst src n
        = pad_loop (strncpy_ref m dst src L (Suc L)) (dst + Suc L) (n - of_nat L)"
    using True nz by (simp add: strncpy_run_def copy_loop_spec [OF assms])
  also have "\<dots> = (strncpy_ref m dst src L (unat n), dst + unat n, 0)"
    unfolding pad_loop_spec [OF u] using True
    by (auto simp: strncpy_ref_def fun_eq_iff)
  finally show ?thesis .
qed

text \<open>
  Claim C8. \<open>strncpy\<close> of str\_copy.c equals the reference definition of the C
  standard. For every \<open>src\<close> that holds a string of length \<open>L\<close>, every \<open>n\<close> and every
  \<open>dst\<close> whose first \<open>n\<close> bytes do not overlap the string: the result memory is the
  reference one and the returned pointer is the original \<open>dst\<close>; the write cursor ends
  at \<open>dst + n\<close> with \<open>n\<close> counted down to zero, so exactly \<open>n\<close> bytes are written;
  byte \<open>i < n\<close> of \<open>dst\<close> is \<open>src[i]\<close> for \<open>i < L\<close> and NUL from \<open>L\<close> on (so there is
  no NUL among them when \<open>L \<ge> n\<close>); every byte outside \<open>dst[0 .. n-1]\<close> is unchanged.
\<close>

theorem strncpy_matches_reference:
  assumes "is_cstring m src L" and "separate dst (unat n) src L"
  shows "strncpy m dst src n = (strncpy_ref m dst src L (unat n), dst)
       \<and> strncpy_run m dst src n = (fst (strncpy m dst src n), dst + unat n, 0)
       \<and> (\<forall>i<unat n. fst (strncpy m dst src n) (dst + i) = (if i < L then m (src + i) else 0))
       \<and> (\<forall>a. a < dst \<or> dst + unat n \<le> a \<longrightarrow> fst (strncpy m dst src n) a = m a)"
proof -
  have r: "strncpy m dst src n = (strncpy_ref m dst src L (unat n), dst)"
    by (simp add: strncpy_def strncpy_run_spec [OF assms])
  show ?thesis
    unfolding r by (auto simp: strncpy_run_spec [OF assms] strncpy_ref_def)
qed

text \<open>
  The theorem at \<open>src = "ab"\<close> (at address 10), \<open>dst\<close> at address 0 and \<open>n = 5\<close>:
  two characters, three NUL bytes, and byte 5 untouched.
\<close>

theorem strncpy_matches_reference_witness:
  "is_cstring example_mem 10 2 \<and> separate 0 (unat (5 :: size_t)) 10 2
   \<and> snd (strncpy example_mem 0 10 5) = 0
   \<and> map (fst (strncpy example_mem 0 10 5)) [0, 1, 2, 3, 4, 5] = [97, 98, 0, 0, 0, 1]"
proof -
  have c: "is_cstring example_mem 10 2"
    by (simp add: is_cstring_def example_mem_def)
  have s: "separate 0 (unat (5 :: size_t)) 10 2"
    by (simp add: separate_def)
  show ?thesis
    using c s strncpy_matches_reference [OF c s]
    by (simp add: strncpy_ref_def example_mem_def)
qed

section \<open>Results: bubble\_sort.c\<close>

text \<open>
  While \<open>j + 1\<close> is still an index of the array, the body of the inner loop succeeds
  and keeps the length; so from any \<open>j\<close> the inner loop runs on to \<open>j = n - 1\<close>, where
  the read of \<open>arr[j + 1]\<close> on line 7 is the read of \<open>arr[n]\<close>.
\<close>

lemma bubble_body_in_bounds:
  assumes "0 \<le> sint j" and "sint j + 1 < int (length arr)" and "sint (j + 1) = sint j + 1"
  shows "\<exists>arr'. bubble_body arr j = Inr arr' \<and> length arr' = length arr"
proof -
  have r0: "arr_read name line arr (sint j) = Inr (arr ! nat (sint j))" for name line
    using assms by (simp add: arr_read_def)
  have r1: "arr_read name line arr (sint j + 1) = Inr (arr ! nat (sint j + 1))" for name line
    using assms by (simp add: arr_read_def)
  show ?thesis
    unfolding bubble_body_def assms(3) r0 r1 using assms(1,2)
    by (simp add: bindE_def arr_write_def)
qed

lemma bubble_inner_oob:
  assumes "int (length arr) = sint n" and "0 \<le> sint j" and "word_sless j n"
  shows "bubble_inner arr n j = Inl (OutOfBounds Read ''arr'' (sint n) 7)"
  using assms
proof (induction "nat (sint n - sint j)" arbitrary: arr j)
  case 0
  then show ?case by (simp add: word_sless_alt)
next
  case (Suc k)
  have s: "sint (j + 1) = sint j + 1" using Suc.prems(3) by (rule sint_succ)
  have lt: "sint j < sint n" using Suc.prems(3) by (simp add: word_sless_alt)
  show ?case
  proof (cases "sint j + 1 = sint n")
    case True
    then have "bubble_body arr j = Inl (OutOfBounds Read ''arr'' (sint n) 7)"
      using Suc.prems by (simp add: bubble_body_def arr_read_def bindE_def s)
    then show ?thesis
      using Suc.prems(3) by (subst bubble_inner.simps) (simp add: bindE_def)
  next
    case False
    with lt have lt1: "sint j + 1 < sint n" by simp
    then have sl: "word_sless (j + 1) n" by (simp add: word_sless_alt s)
    obtain arr' where b: "bubble_body arr j = Inr arr'" and l: "length arr' = length arr"
      using bubble_body_in_bounds [of j arr] Suc.prems lt1 s by auto
    have "bubble_inner arr' n (j + 1) = Inl (OutOfBounds Read ''arr'' (sint n) 7)"
      using Suc.hyps(2) Suc.prems(1,2) sl l
      by (intro Suc.hyps(1)) (auto simp: s)
    then show ?thesis
      using Suc.prems(3) b by (subst bubble_inner.simps) (simp add: bindE_def)
  qed
qed

lemma bubble_body_fault_line:
  assumes "bubble_body arr j = Inl e"
  shows "\<exists>i. e = OutOfBounds Read ''arr'' i 7"
proof (cases "0 \<le> sint j \<and> sint j < int (length arr)")
  case False
  then show ?thesis
    using assms by (auto simp: bubble_body_def arr_read_def bindE_def)
next
  case a: True
  show ?thesis
  proof (cases "0 \<le> sint (j + 1) \<and> sint (j + 1) < int (length arr)")
    case False
    then show ?thesis
      using assms a by (auto simp: bubble_body_def arr_read_def bindE_def)
  next
    case True
    then have "\<exists>arr'. bubble_body arr j = Inr arr'"
      using a by (simp add: bubble_body_def arr_read_def arr_write_def bindE_def)
    with assms show ?thesis by simp
  qed
qed

lemma sint_of_last:
  fixes n :: cint
  assumes "1 \<le> sint n"
  shows "sint (n - 1) = sint n - 1" and "sint (n - 1 + 1) = sint n"
proof -
  have "sint n < 2 ^ 31" using sint_lt [of n] by simp
  with assms have "signed_take_bit 31 (sint n - 1) = sint n - 1"
    by (intro signed_take_bit_int_eq_self) auto
  then show "sint (n - 1) = sint n - 1" by (simp add: sint_word_ariths)
  show "sint (n - 1 + 1) = sint n" by simp
qed

text \<open>
  Claim C2. For every \<open>n \<ge> 1\<close>, \<open>buggy_bubble_sort\<close> on an array of length \<open>n\<close>
  reads the array at index \<open>n\<close>: the run stops with the out-of-bounds read of
  \<open>arr[n]\<close> on line 7. The same holds for the inner loop of every outer iteration,
  whatever the array holds by then: it reaches \<open>j = n - 1\<close>, whose body faults on
  \<open>arr[j + 1] = arr[n]\<close>. Line 7 is the only line an out-of-bounds access comes from:
  every fault of the loop body, for any array and any \<open>j\<close>, is a read on line 7.
\<close>

theorem buggy_bubble_sort_reads_past_end:
  assumes "int (length arr) = sint n" and "1 \<le> sint n"
  shows "buggy_bubble_sort arr n = Inl (OutOfBounds Read ''arr'' (sint n) 7)
       \<and> (\<forall>arr'. length arr' = length arr \<longrightarrow>
             bubble_inner arr' n 0 = Inl (OutOfBounds Read ''arr'' (sint n) 7)
           \<and> bubble_body arr' (n - 1) = Inl (OutOfBounds Read ''arr'' (sint n) 7))
       \<and> (\<forall>arr' j e. bubble_body arr' j = Inl e \<longrightarrow> (\<exists>i. e = OutOfBounds Read ''arr'' i 7))"
proof -
  have z: "word_sless 0 n" using assms(2) by (simp add: word_sless_alt)
  have inner: "bubble_inner arr' n 0 = Inl (OutOfBounds Read ''arr'' (sint n) 7)"
    if "length arr' = length arr" for arr'
    using that assms(1) z by (intro bubble_inner_oob) simp_all
  have body: "bubble_body arr' (n - 1) = Inl (OutOfBounds Read ''arr'' (sint n) 7)"
    if "length arr' = length arr" for arr'
    using that assms sint_of_last [OF assms(2)]
    by (simp add: bubble_body_def arr_read_def bindE_def)
  have "buggy_bubble_sort arr n = Inl (OutOfBounds Read ''arr'' (sint n) 7)"
    unfolding buggy_bubble_sort_def
    using z inner [of arr] by (subst bubble_outer.simps) (simp add: bindE_def)
  then show ?thesis
    using inner body bubble_body_fault_line by blast
qed

text \<open>The theorem on the array of \<open>main\<close>, \<open>{5, 3, 2, 4, 1}\<close> with \<open>n = 5\<close>.\<close>

theorem buggy_bubble_sort_reads_past_end_witness:
  "int (length [5, 3, 2, 4, 1 :: cint]) = sint (5 :: cint) \<and> 1 \<le> sint (5 :: cint)
   \<and> buggy_bubble_sort [5, 3, 2, 4, 1] 5 = Inl (OutOfBounds Read ''arr'' 5 7)
   \<and> bubble_inner [1, 2, 3, 4, 5] 5 0 = Inl (OutOfBounds Read ''arr'' 5 7)
   \<and> bubble_body [1, 2, 3, 4, 5] 4 = Inl (OutOfBounds Read ''arr'' 5 7)"
  using buggy_bubble_sort_reads_past_end [of "[5, 3, 2, 4, 1]" 5]
  by simp

section \<open>Results: checked accesses\<close>

lemma bindE_Inr [simp]: "bindE (Inr v) f = f v"
  by (simp add: bindE_def)

lemma bindE_Inl [simp]: "bindE (Inl e) f = Inl e"
  by (simp add: bindE_def)

lemma arr_read_in: "0 \<le> i \<Longrightarrow> i < int (length xs) \<Longrightarrow> arr_read name line xs i = Inr (xs ! nat i)"
  by (simp add: arr_read_def)

lemma arr_write_in:
  "0 \<le> i \<Longrightarrow> i < int (length xs) \<Longrightarrow> arr_write name line xs i v = Inr (xs[nat i := v])"
  by (simp add: arr_write_def)

lemma arr_read_out: "\<not> (0 \<le> i \<and> i < int (length xs)) \<Longrightarrow>
    arr_read name line xs i = Inl (OutOfBounds Read name i line)"
  by (simp add: arr_read_def)

lemma arr_write_out: "\<not> (0 \<le> i \<and> i < int (length xs)) \<Longrightarrow>
    arr_write name line xs i v = Inl (OutOfBounds Write name i line)"
  by (simp add: arr_write_def)

lemma length_local_array: "length (local_array junk) = nat V"
  by (simp add: local_array_def)

lemma le_INT_MAX: "word_sle d INT_MAX"
proof -
  have "sint d < 2 ^ 31" using sint_lt [of d] by simp
  then show ?thesis by (simp add: word_sle_eq INT_MAX_def)
qed

section \<open>Results: dijkstra\_unsafe.c\<close>

text \<open>
  The initialisation loop runs \<open>i\<close> up to and including \<open>V\<close>. On arrays of \<open>V\<close> cells
  the write of \<open>dist[V]\<close> on line 33 is out of bounds; were \<open>dist\<close> longer, the next
  statement writes \<open>sptSet[V]\<close> on line 34, out of bounds as well. The loop of
  \<open>minDistance\<close> runs \<open>v\<close> up to and including \<open>V\<close>: it reads \<open>sptSet[V]\<close> on line
  10 and, where that cell exists and is zero, \<open>dist[V]\<close> on line 11.
\<close>

lemma dijkstra_unsafe_init_dist:
  assumes "length d = nat V" and "nat V \<le> length s" and "0 \<le> i" and "i \<le> V"
  shows "dijkstra_unsafe_init (d, s) i = Inl (OutOfBounds Write ''dist'' V 33)"
  using assms
proof (induction "nat (V - i)" arbitrary: d s i)
  case 0
  then have "i = V" by simp
  with 0 show ?case
    by (subst dijkstra_unsafe_init.simps) (simp add: arr_write_out)
next
  case (Suc n)
  then have lt: "i < V" by simp
  have "dijkstra_unsafe_init (d, s) i
        = dijkstra_unsafe_init (d[nat i := INT_MAX], s[nat i := 0]) (i + 1)"
    using lt Suc.prems by (subst dijkstra_unsafe_init.simps) (simp add: arr_write_in)
  moreover have "dijkstra_unsafe_init (d[nat i := INT_MAX], s[nat i := 0]) (i + 1)
        = Inl (OutOfBounds Write ''dist'' V 33)"
    using Suc.hyps(2) Suc.prems lt by (intro Suc.hyps(1)) auto
  ultimately show ?case by simp
qed

lemma dijkstra_unsafe_init_sptSet:
  assumes "nat V < length d" and "length s = nat V" and "0 \<le> i" and "i \<le> V"
  shows "dijkstra_unsafe_init (d, s) i = Inl (OutOfBounds Write ''sptSet'' V 34)"
  using assms
proof (induction "nat (V - i)" arbitrary: d s i)
  case 0
  then have "i = V" by simp
  with 0 show ?case
    by (subst dijkstra_unsafe_init.simps) (simp add: arr_write_out arr_write_in)
next
  case (Suc n)
  then have lt: "i < V" by simp
  have "dijkstra_unsafe_init (d, s) i
        = dijkstra_unsafe_init (d[nat i := INT_MAX], s[nat i := 0]) (i + 1)"
    using lt Suc.prems by (subst dijkstra_unsafe_init.simps) (simp add: arr_write_in)
  moreover have "dijkstra_unsafe_init (d[nat i := INT_MAX], s[nat i := 0]) (i + 1)
        = Inl (OutOfBounds Write ''sptSet'' V 34)"
    using Suc.hyps(2) Suc.prems lt by (intro Suc.hyps(1)) auto
  ultimately show ?case by simp
qed

lemma minDistance_unsafe_body_ok:
  assumes "0 \<le> v" and "v < int (length dist)" and "v < int (length sptSet)"
  shows "\<exists>st'. minDistance_unsafe_body dist sptSet v st = Inr st'"
  using assms by (cases st) (simp add: minDistance_unsafe_body_def arr_read_in)

lemma minDistance_unsafe_loop_sptSet:
  assumes "nat V \<le> length dist" and "length sptSet = nat V" and "0 \<le> v" and "v \<le> V"
  shows "minDistance_unsafe_loop dist sptSet v st = Inl (OutOfBounds Read ''sptSet'' V 10)"
  using assms
proof (induction "nat (V - v)" arbitrary: v st)
  case 0
  then have "v = V" by simp
  with 0 show ?case
    by (cases st) (subst minDistance_unsafe_loop.simps,
        simp add: minDistance_unsafe_body_def arr_read_out)
next
  case (Suc n)
  then have lt: "v < V" by simp
  have "v < int (length dist)" and "v < int (length sptSet)"
    using Suc.prems lt by linarith+
  then obtain st' where b: "minDistance_unsafe_body dist sptSet v st = Inr st'"
    using minDistance_unsafe_body_ok [of v dist sptSet st] Suc.prems(3,4) by blast
  have "minDistance_unsafe_loop dist sptSet (v + 1) st' = Inl (OutOfBounds Read ''sptSet'' V 10)"
    using Suc.hyps(2) Suc.prems lt by (intro Suc.hyps(1)) auto
  then show ?case
    using lt b by (subst minDistance_unsafe_loop.simps) simp
qed

lemma minDistance_unsafe_loop_dist:
  assumes "length dist = nat V" and "nat V < length sptSet" and "sptSet ! nat V = 0"
    and "0 \<le> v" and "v \<le> V"
  shows "minDistance_unsafe_loop dist sptSet v st = Inl (OutOfBounds Read ''dist'' V 11)"
  using assms
proof (induction "nat (V - v)" arbitrary: v st)
  case 0
  then have "v = V" by simp
  with 0 show ?case
    by (cases st) (subst minDistance_unsafe_loop.simps,
        simp add: minDistance_unsafe_body_def arr_read_out arr_read_in)
next
  case (Suc n)
  then have lt: "v < V" by simp
  have "v < int (length dist)" and "v < int (length sptSet)"
    using Suc.prems lt by linarith+
  then obtain st' where b: "minDistance_unsafe_body dist sptSet v st = Inr st'"
    using minDistance_unsafe_body_ok [of v dist sptSet st] Suc.prems(3,4) by blast
  have "minDistance_unsafe_loop dist sptSet (v + 1) st' = Inl (OutOfBounds Read ''dist'' V 11)"
    using Suc.hyps(2) Suc.prems lt by (intro Suc.hyps(1)) auto
  then show ?case
    using lt b by (subst minDistance_unsafe_loop.simps) simp
qed

lemma dijkstra_unsafe_faults:
  "dijkstra_unsafe junk_dist junk_sptSet graph src = Inl (OutOfBounds Write ''dist'' V 33)"
  using dijkstra_unsafe_init_dist [of "local_array junk_dist" "local_array junk_sptSet" 0]
  by (simp add: dijkstra_unsafe_def length_local_array V_def)

text \<open>
  Claim C3. Every execution of \<open>dijkstra\<close> in dijkstra\_unsafe.c accesses the
  \<open>V\<close>-element arrays at index \<open>V = 5\<close>. Whatever the graph, the source vertex and the
  initial content of the local arrays, the run stops in the initialisation loop at the
  out-of-bounds write of \<open>dist[V]\<close> (line 33); the same loop writes \<open>sptSet[V]\<close> (line
  34), which is out of bounds for a \<open>V\<close>-element \<open>sptSet\<close> as soon as the write to
  \<open>dist\<close> is not. Every call of \<open>minDistance\<close> on a \<open>V\<close>-element \<open>sptSet\<close> stops at
  the out-of-bounds read of \<open>sptSet[V]\<close> (line 10), and where \<open>sptSet[V]\<close> can be read
  and is zero it reads \<open>dist[V]\<close> (line 11), out of bounds for a \<open>V\<close>-element \<open>dist\<close>.
\<close>

theorem dijkstra_unsafe_out_of_bounds:
  "V = 5
   \<and> dijkstra_unsafe junk_dist junk_sptSet graph src = Inl (OutOfBounds Write ''dist'' V 33)
   \<and> (length dist = nat V \<and> nat V \<le> length sptSet \<longrightarrow>
        dijkstra_unsafe_init (dist, sptSet) 0 = Inl (OutOfBounds Write ''dist'' V 33))
   \<and> (nat V < length dist \<and> length sptSet = nat V \<longrightarrow>
        dijkstra_unsafe_init (dist, sptSet) 0 = Inl (OutOfBounds Write ''sptSet'' V 34))
   \<and> (nat V \<le> length dist \<and> length sptSet = nat V \<longrightarrow>
        minDistance_unsafe dist sptSet = Inl (OutOfBounds Read ''sptSet'' V 10))
   \<and> (length dist = nat V \<and> nat V < length sptSet \<and> sptSet ! nat V = 0 \<longrightarrow>
        minDistance_unsafe dist sptSet = Inl (OutOfBounds Read ''dist'' V 11))"
proof -
  have v: "(0::int) \<le> V" by (simp add: V_def)
  have a: "dijkstra_unsafe_init (dist, sptSet) 0 = Inl (OutOfBounds Write ''dist'' V 33)"
    if "length dist = nat V" and "nat V \<le> length sptSet"
    using that v by (intro dijkstra_unsafe_init_dist) simp_all
  have b: "dijkstra_unsafe_init (dist, sptSet) 0 = Inl (OutOfBounds Write ''sptSet'' V 34)"
    if "nat V < length dist" and "length sptSet = nat V"
    using that v by (intro dijkstra_unsafe_init_sptSet) simp_all
  have c: "minDistance_unsafe dist sptSet = Inl (OutOfBounds Read ''sptSet'' V 10)"
    if "nat V \<le> length dist" and "length sptSet = nat V"
    unfolding minDistance_unsafe_def
    using that v by (intro minDistance_unsafe_loop_sptSet) simp_all
  have d: "minDistance_unsafe dist sptSet = Inl (OutOfBounds Read ''dist'' V 11)"
    if "length dist = nat V" and "nat V < length sptSet" and "sptSet ! nat V = 0"
    unfolding minDistance_unsafe_def
    using that v by (intro minDistance_unsafe_loop_dist) simp_all
  show ?thesis
    using a b c d dijkstra_unsafe_faults by (simp add: V_def)
qed

text \<open>
  The theorem on the graph of \<open>main\<close> with source 0, and on arrays of five and of six
  zeros.
\<close>

theorem dijkstra_unsafe_out_of_bounds_witness:
  "dijkstra_unsafe no_junk no_junk main_graph 0 = Inl (OutOfBounds Write ''dist'' 5 33)
   \<and> dijkstra_unsafe_init ([0, 0, 0, 0, 0], [0, 0, 0, 0, 0]) 0
       = Inl (OutOfBounds Write ''dist'' 5 33)
   \<and> dijkstra_unsafe_init ([0, 0, 0, 0, 0, 0], [0, 0, 0, 0, 0]) 0
       = Inl (OutOfBounds Write ''sptSet'' 5 34)
   \<and> minDistance_unsafe [0, 0, 0, 0, 0] [0, 0, 0, 0, 0]
       = Inl (OutOfBounds Read ''sptSet'' 5 10)
   \<and> minDistance_unsafe [0, 0, 0, 0, 0] [0, 0, 0, 0, 0, 0]
       = Inl (OutOfBounds Read ''dist'' 5 11)"
proof -
  have n: "nat V = 5" and v: "V = 5" by (simp_all add: V_def)
  note t = dijkstra_unsafe_out_of_bounds
    [where junk_dist = no_junk and junk_sptSet = no_junk and graph = main_graph and src = 0]
  have 1: "dijkstra_unsafe no_junk no_junk main_graph 0 = Inl (OutOfBounds Write ''dist'' 5 33)"
    using t [of "[]" "[]"] by (simp add: n v)
  have 2: "dijkstra_unsafe_init ([0, 0, 0, 0, 0], [0, 0, 0, 0, 0]) 0
       = Inl (OutOfBounds Write ''dist'' 5 33)"
    using t [of "[0, 0, 0, 0, 0]" "[0, 0, 0, 0, 0]"] by (simp add: n v)
  have 3: "dijkstra_unsafe_init ([0, 0, 0, 0, 0, 0], [0, 0, 0, 0, 0]) 0
       = Inl (OutOfBounds Write ''sptSet'' 5 34)"
    using t [of "[0, 0, 0, 0, 0, 0]" "[0, 0, 0, 0, 0]"] by (simp add: n v)
  have 4: "minDistance_unsafe [0, 0, 0, 0, 0] [0, 0, 0, 0, 0]
       = Inl (OutOfBounds Read ''sptSet'' 5 10)"
    using t [of "[0, 0, 0, 0, 0]" "[0, 0, 0, 0, 0]"] by (simp add: n v)
  have 5: "minDistance_unsafe [0, 0, 0, 0, 0] [0, 0, 0, 0, 0, 0]
       = Inl (OutOfBounds Read ''dist'' 5 11)"
    using t [of "[0, 0, 0, 0, 0]" "[0, 0, 0, 0, 0, 0]"] by (simp add: n v)
  from 1 2 3 4 5 show ?thesis by (intro conjI)
qed

section \<open>Results: dijkstra\_safe.c\<close>

text \<open>
  The initialisation loop stays below \<open>V\<close> and leaves every cell of \<open>sptSet\<close> zero.
  \<open>minDistance\<close> returns an unvisited vertex whenever there is one: the first
  unvisited vertex it meets passes \<open>dist[v] <= INT_MAX\<close>, and from then on
  \<open>min_index\<close> is an unvisited vertex. The main loop marks one more vertex in each of
  its \<open>V - 1\<close> iterations, so an unvisited vertex is left at each call.
\<close>

lemma dijkstra_safe_init_ok:
  assumes "length d = nat V" and "length s = nat V" and "0 \<le> i" and "i \<le> V"
    and "\<forall>k<nat i. s ! k = 0"
  shows "\<exists>d' s'. dijkstra_safe_init (d, s) i = Inr (d', s') \<and> length d' = nat V
           \<and> length s' = nat V \<and> (\<forall>k<nat V. s' ! k = 0)"
  using assms
proof (induction "nat (V - i)" arbitrary: d s i)
  case 0
  then have "i = V" by simp
  with 0 show ?case by (subst dijkstra_safe_init.simps) simp
next
  case (Suc n)
  then have lt: "i < V" by simp
  let ?d = "d[nat i := INT_MAX]" and ?s = "s[nat i := 0]"
  have z: "\<forall>k<nat (i + 1). ?s ! k = 0"
  proof (intro allI impI)
    fix k assume "k < nat (i + 1)"
    then have "k < nat i \<or> k = nat i" using Suc.prems(3) by auto
    then show "?s ! k = 0"
      using Suc.prems lt by (auto simp: nth_list_update)
  qed
  have "\<exists>d' s'. dijkstra_safe_init (?d, ?s) (i + 1) = Inr (d', s') \<and> length d' = nat V
           \<and> length s' = nat V \<and> (\<forall>k<nat V. s' ! k = 0)"
    using Suc.hyps(2) Suc.prems lt z by (intro Suc.hyps(1)) auto
  moreover have "dijkstra_safe_init (d, s) i = dijkstra_safe_init (?d, ?s) (i + 1)"
    using lt Suc.prems by (subst dijkstra_safe_init.simps) (simp add: arr_write_in)
  ultimately show ?case by simp
qed

lemma minDistance_safe_loop_ok:
  assumes "length dist = nat V" and "length sptSet = nat V" and "0 \<le> v" and "v \<le> V"
  shows "\<exists>u. minDistance_safe_loop dist sptSet v (mn, mi) = Inr u
           \<and> (u = mi \<or> unvisited sptSet u)
           \<and> (mn = INT_MAX \<and> (\<exists>w. v \<le> w \<and> unvisited sptSet w) \<longrightarrow> unvisited sptSet u)"
  using assms
proof (induction "nat (V - v)" arbitrary: v mn mi)
  case 0
  then have "v = V" by simp
  then show ?case
    by (subst minDistance_safe_loop.simps) (auto simp: unvisited_def)
next
  case (Suc n)
  then have lt: "v < V" by simp
  have ih: "\<exists>u. minDistance_safe_loop dist sptSet (v + 1) (mn', mi') = Inr u
           \<and> (u = mi' \<or> unvisited sptSet u)
           \<and> (mn' = INT_MAX \<and> (\<exists>w. v + 1 \<le> w \<and> unvisited sptSet w) \<longrightarrow> unvisited sptSet u)"
    for mn' mi'
    using Suc.hyps(2) Suc.prems lt by (intro Suc.hyps(1)) auto
  have rs: "arr_read name line sptSet v = Inr (sptSet ! nat v)" for name line
    using Suc.prems lt by (simp add: arr_read_in)
  have rd: "arr_read name line dist v = Inr (dist ! nat v)" for name line
    using Suc.prems lt by (simp add: arr_read_in)
  show ?case
  proof (cases "sptSet ! nat v = 0")
    case False
    then have body: "minDistance_safe_body dist sptSet v (mn, mi) = Inr (mn, mi)"
      by (simp add: minDistance_safe_body_def rs)
    have step: "minDistance_safe_loop dist sptSet v (mn, mi)
                = minDistance_safe_loop dist sptSet (v + 1) (mn, mi)"
      using lt body by (subst minDistance_safe_loop.simps) simp
    have "v + 1 \<le> w" if "v \<le> w" and "unvisited sptSet w" for w
      using that False by (cases "w = v") (auto simp: unvisited_def)
    then have "(\<exists>w. v \<le> w \<and> unvisited sptSet w) \<longrightarrow> (\<exists>w. v + 1 \<le> w \<and> unvisited sptSet w)"
      by blast
    then show ?thesis
      using ih [of mn mi] unfolding step by blast
  next
    case True
    then have uv: "unvisited sptSet v"
      using Suc.prems lt by (simp add: unvisited_def)
    show ?thesis
    proof (cases "word_sle (dist ! nat v) mn")
      case True
      then have body: "minDistance_safe_body dist sptSet v (mn, mi) = Inr (dist ! nat v, v)"
        using \<open>sptSet ! nat v = 0\<close> by (simp add: minDistance_safe_body_def rs rd)
      show ?thesis
        using ih [of "dist ! nat v" v] lt body uv
        by (subst minDistance_safe_loop.simps) auto
    next
      case False
      then have body: "minDistance_safe_body dist sptSet v (mn, mi) = Inr (mn, mi)"
        using \<open>sptSet ! nat v = 0\<close> by (simp add: minDistance_safe_body_def rs rd)
      from False have "mn \<noteq> INT_MAX" using le_INT_MAX by auto
      then show ?thesis
        using ih [of mn mi] lt body
        by (subst minDistance_safe_loop.simps) auto
    qed
  qed
qed

lemma minDistance_safe_ok:
  assumes "length dist = nat V" and "length sptSet = nat V" and "unvisited sptSet w"
  shows "\<exists>u. minDistance_safe dist sptSet = Inr u \<and> unvisited sptSet u"
proof -
  have "0 \<le> w" using assms(3) by (simp add: unvisited_def)
  moreover have "(0::int) \<le> V" by (simp add: V_def)
  ultimately show ?thesis
    using minDistance_safe_loop_ok [OF assms(1,2), of 0 INT_MAX "- 1"] assms(3)
    unfolding minDistance_safe_def by auto
qed

lemma graph_read_in:
  assumes "square_graph graph" and "0 \<le> u" and "u < V" and "0 \<le> v" and "v < V"
  shows "graph_read line graph u v = Inr (graph ! nat u ! nat v)"
proof -
  have "graph ! nat u \<in> set graph" using assms by (simp add: square_graph_def)
  then have "length (graph ! nat u) = nat V" using assms(1) by (simp add: square_graph_def)
  then show ?thesis
    using assms by (simp add: graph_read_def arr_read_in square_graph_def)
qed

lemma dijkstra_safe_relax_ok:
  assumes "square_graph graph" and "length dist = nat V" and "length sptSet = nat V"
    and "0 \<le> u" and "u < V" and "0 \<le> v" and "v < V"
  shows "\<exists>dist'. dijkstra_safe_relax graph sptSet u v dist = Inr dist'
           \<and> length dist' = nat V"
proof -
  have g: "graph_read line graph u v = Inr (graph ! nat u ! nat v)" for line
    using assms by (simp add: graph_read_in)
  have rs: "arr_read name line sptSet v = Inr (sptSet ! nat v)" for name line
    using assms by (simp add: arr_read_in)
  have rv: "arr_read name line dist v = Inr (dist ! nat v)" for name line
    using assms by (simp add: arr_read_in)
  have ru: "arr_read name line dist u = Inr (dist ! nat u)" for name line
    using assms by (simp add: arr_read_in)
  have w: "arr_write name line dist v x = Inr (dist[nat v := x])" for name line x
    using assms by (simp add: arr_write_in)
  show ?thesis
    unfolding dijkstra_safe_relax_def g rs rv ru w using assms(2) by simp
qed

lemma dijkstra_safe_inner_ok:
  assumes "square_graph graph" and "length dist = nat V" and "length sptSet = nat V"
    and "0 \<le> u" and "u < V" and "0 \<le> v" and "v \<le> V"
  shows "\<exists>dist'. dijkstra_safe_inner graph sptSet u v dist = Inr dist'
           \<and> length dist' = nat V"
  using assms
proof (induction "nat (V - v)" arbitrary: v dist)
  case 0
  then show ?case by (subst dijkstra_safe_inner.simps) simp
next
  case (Suc n)
  then have lt: "v < V" by simp
  obtain d1 where r: "dijkstra_safe_relax graph sptSet u v dist = Inr d1"
    and l: "length d1 = nat V"
    using dijkstra_safe_relax_ok [OF Suc.prems(1,2,3,4,5,6) lt] by blast
  have "\<exists>dist'. dijkstra_safe_inner graph sptSet u (v + 1) d1 = Inr dist' \<and> length dist' = nat V"
    using Suc.hyps(2) Suc.prems lt l by (intro Suc.hyps(1)) auto
  then show ?case
    using lt r by (subst dijkstra_safe_inner.simps) simp
qed

lemma filter_update_le:
  "length (filter P (xs[i := x])) \<le> Suc (length (filter P xs))"
proof (induction xs arbitrary: i)
  case Nil
  then show ?case by simp
next
  case (Cons a xs)
  show ?case
  proof (cases i)
    case 0
    then show ?thesis by simp
  next
    case (Suc j)
    then show ?thesis using Cons.IH [of j] by simp
  qed
qed

lemma some_unvisited:
  assumes "length sptSet = nat V" and "length (filter (\<lambda>x. x \<noteq> 0) sptSet) < nat V"
  shows "\<exists>w. unvisited sptSet w"
proof -
  have "\<exists>x \<in> set sptSet. \<not> x \<noteq> 0"
  proof (rule ccontr)
    assume "\<not> (\<exists>x \<in> set sptSet. \<not> x \<noteq> 0)"
    then have "\<forall>x \<in> set sptSet. x \<noteq> 0" by blast
    then have "filter (\<lambda>x. x \<noteq> 0) sptSet = sptSet" by (simp only: filter_id_conv)
    with assms show False by simp
  qed
  then obtain k where "k < length sptSet" and "sptSet ! k = 0"
    by (auto simp: in_set_conv_nth)
  then have "unvisited sptSet (int k)"
    using assms(1) by (simp add: unvisited_def)
  then show ?thesis ..
qed

lemma dijkstra_safe_outer_ok:
  assumes "square_graph graph" and "length dist = nat V" and "length sptSet = nat V"
    and "0 \<le> count" and "length (filter (\<lambda>x. x \<noteq> 0) sptSet) \<le> nat count"
  shows "\<exists>dist' sptSet'. dijkstra_safe_outer graph count (dist, sptSet) = Inr (dist', sptSet')
           \<and> length dist' = nat V"
  using assms
proof (induction "nat (V - 1 - count)" arbitrary: count dist sptSet)
  case 0
  then show ?case by (subst dijkstra_safe_outer.simps) simp
next
  case (Suc n)
  then have lt: "count < V - 1" by simp
  then have "length (filter (\<lambda>x. x \<noteq> 0) sptSet) < nat V"
    using Suc.prems(4,5) by simp
  then obtain w where "unvisited sptSet w"
    using some_unvisited [OF Suc.prems(3)] by blast
  then obtain u where md: "minDistance_safe dist sptSet = Inr u" and u: "unvisited sptSet u"
    using minDistance_safe_ok [OF Suc.prems(2,3)] by blast
  from u have u0: "0 \<le> u" and uV: "u < V" by (simp_all add: unvisited_def)
  let ?s = "sptSet[nat u := 1]"
  have wr: "arr_write ''sptSet'' 42 sptSet u 1 = Inr ?s"
    using u0 uV Suc.prems(3) by (simp add: arr_write_in)
  have ls: "length ?s = nat V" using Suc.prems(3) by simp
  obtain d1 where inner: "dijkstra_safe_inner graph ?s u 0 dist = Inr d1"
    and ld: "length d1 = nat V"
    using dijkstra_safe_inner_ok [OF Suc.prems(1,2) ls u0 uV, of 0] by (auto simp: V_def)
  have cnt: "length (filter (\<lambda>x. x \<noteq> 0) ?s) \<le> nat (count + 1)"
    using filter_update_le [of "\<lambda>x. x \<noteq> 0" sptSet "nat u" 1] Suc.prems(4,5) by simp
  have "\<exists>dist' sptSet'. dijkstra_safe_outer graph (count + 1) (d1, ?s) = Inr (dist', sptSet')
           \<and> length dist' = nat V"
    using Suc.hyps(2) Suc.prems(1,4) ld ls cnt lt
    by (intro Suc.hyps(1)) auto
  then show ?case
    using lt md wr inner by (subst dijkstra_safe_outer.simps) simp
qed

lemma printSolution_safe_loop_ok:
  assumes "length dist = nat V" and "0 \<le> i" and "i \<le> V"
  shows "\<exists>out. printSolution_safe_loop dist i = Inr out"
  using assms
proof (induction "nat (V - i)" arbitrary: i)
  case 0
  then show ?case by (subst printSolution_safe_loop.simps) simp
next
  case (Suc n)
  then have lt: "i < V" by simp
  have "\<exists>out. printSolution_safe_loop dist (i + 1) = Inr out"
    using Suc.hyps(2) Suc.prems lt by (intro Suc.hyps(1)) auto
  then show ?case
    using lt Suc.prems by (subst printSolution_safe_loop.simps) (auto simp: arr_read_in)
qed

lemma dijkstra_safe_ok:
  assumes "square_graph graph" and "0 \<le> src" and "src < V"
  shows "\<exists>out. dijkstra_safe junk_dist junk_sptSet graph src = Inr out"
proof -
  obtain d1 s1 where init: "dijkstra_safe_init (local_array junk_dist, local_array junk_sptSet) 0
      = Inr (d1, s1)" and l1: "length d1 = nat V" "length s1 = nat V"
    and z: "\<forall>k<nat V. s1 ! k = 0"
    using dijkstra_safe_init_ok [of "local_array junk_dist" "local_array junk_sptSet" 0]
    by (auto simp: length_local_array V_def)
  have wr: "arr_write ''dist'' 37 d1 src 0 = Inr (d1[nat src := 0])"
    using assms l1 by (simp add: arr_write_in)
  have "filter (\<lambda>x. x \<noteq> 0) s1 = []"
    using z l1 by (auto simp: filter_empty_conv in_set_conv_nth)
  then have c: "length (filter (\<lambda>x. x \<noteq> 0) s1) \<le> nat 0" by simp
  obtain d3 s3 where outer: "dijkstra_safe_outer graph 0 (d1[nat src := 0], s1) = Inr (d3, s3)"
    and l3: "length d3 = nat V"
    using dijkstra_safe_outer_ok [OF assms(1) _ l1(2) _ c, of "d1[nat src := 0]"] l1 by auto
  obtain out where "printSolution_safe d3 = Inr out"
    using printSolution_safe_loop_ok [OF l3, of 0]
    by (auto simp: printSolution_safe_def V_def)
  then show ?thesis
    by (simp add: dijkstra_safe_def init wr outer)
qed

lemma dijkstra_safe_src_out:
  assumes "\<not> (0 \<le> src \<and> src < V)"
  shows "dijkstra_safe junk_dist junk_sptSet graph src = Inl (OutOfBounds Write ''dist'' src 37)"
proof -
  obtain d1 s1 where init: "dijkstra_safe_init (local_array junk_dist, local_array junk_sptSet) 0
      = Inr (d1, s1)" and l1: "length d1 = nat V"
    using dijkstra_safe_init_ok [of "local_array junk_dist" "local_array junk_sptSet" 0]
    by (auto simp: length_local_array V_def)
  have "arr_write ''dist'' 37 d1 src 0 = Inl (OutOfBounds Write ''dist'' src 37)"
    using assms l1 by (intro arr_write_out) auto
  then show ?thesis
    by (simp add: dijkstra_safe_def init)
qed

lemma square_main_graph: "square_graph main_graph"
  by (simp add: square_graph_def main_graph_def V_def)

text \<open>
  Claim C4, as stated: every execution of \<open>dijkstra\<close> in dijkstra\_safe.c stays within
  array bounds. It fails for a source vertex outside \<open>0 .. V-1\<close>: on the graph of
  \<open>main\<close> with \<open>src = 5\<close> the assignment \<open>dist[src] = 0\<close> on line 37 writes
  \<open>dist[5]\<close>, one past the end of \<open>dist\<close>.
\<close>

theorem dijkstra_safe_source_out_of_range:
  "square_graph main_graph
   \<and> dijkstra_safe no_junk no_junk main_graph 5 = Inl (OutOfBounds Write ''dist'' 5 37)"
  using square_main_graph dijkstra_safe_src_out [of 5 no_junk no_junk main_graph]
  by (simp add: V_def)

text \<open>
  Claim C4, amended. For every \<open>V \<times> V\<close> graph, \<open>dijkstra\<close> in dijkstra\_safe.c stays
  within array bounds exactly when \<open>0 \<le> src < V\<close>; for any other \<open>src\<close> the write
  \<open>dist[src] = 0\<close> on line 37 is the out-of-bounds access. With \<open>src\<close> in range no
  access takes the out-of-bounds branch: all loops over \<open>dist\<close>, \<open>sptSet\<close> and
  \<open>graph\<close> stay below \<open>V\<close>, and \<open>minDistance\<close> never returns its initial \<open>-1\<close>,
  because it returns a vertex in \<open>0 .. V-1\<close> whenever some vertex is unvisited, as is
  the case in each of the \<open>V - 1\<close> outer iterations (a returned \<open>-1\<close> would make
  \<open>sptSet[u] = 1\<close> on line 42 fault). In particular \<open>main\<close>, which calls
  \<open>dijkstra(graph, 0)\<close>, returns 0.
\<close>

theorem dijkstra_safe_in_bounds:
  assumes "square_graph graph"
  shows "((\<exists>out. dijkstra_safe junk_dist junk_sptSet graph src = Inr out) = (0 \<le> src \<and> src < V))
       \<and> (\<not> (0 \<le> src \<and> src < V) \<longrightarrow>
            dijkstra_safe junk_dist junk_sptSet graph src = Inl (OutOfBounds Write ''dist'' src 37))
       \<and> (\<forall>dist sptSet. length dist = nat V \<and> length sptSet = nat V \<and> (\<exists>w. unvisited sptSet w) \<longrightarrow>
            (\<exists>u. minDistance_safe dist sptSet = Inr u \<and> 0 \<le> u \<and> u < V))
       \<and> main_dijkstra_safe junk_dist junk_sptSet = Inr 0"
proof -
  have out: "dijkstra_safe junk_dist junk_sptSet graph src = Inl (OutOfBounds Write ''dist'' src 37)"
    if "\<not> (0 \<le> src \<and> src < V)"
    using that by (rule dijkstra_safe_src_out)
  have ok: "\<exists>out. dijkstra_safe junk_dist junk_sptSet graph src = Inr out"
    if "0 \<le> src \<and> src < V"
    using that assms by (intro dijkstra_safe_ok) simp_all
  have iff: "(\<exists>out. dijkstra_safe junk_dist junk_sptSet graph src = Inr out) = (0 \<le> src \<and> src < V)"
    using out ok by (cases "0 \<le> src \<and> src < V") auto
  have md: "\<exists>u. minDistance_safe dist sptSet = Inr u \<and> 0 \<le> u \<and> u < V"
    if "length dist = nat V" and "length sptSet = nat V" and "unvisited sptSet w"
    for dist sptSet w
    using minDistance_safe_ok [OF that] by (auto simp: unvisited_def)
  obtain res where "dijkstra_safe junk_dist junk_sptSet main_graph 0 = Inr res"
    using dijkstra_safe_ok [OF square_main_graph, of 0 junk_dist junk_sptSet]
    by (auto simp: V_def)
  then have m: "main_dijkstra_safe junk_dist junk_sptSet = Inr 0"
    by (simp add: main_dijkstra_safe_def)
  show ?thesis
    using iff out md m by blast
qed

text \<open>
  The theorem on the graph of \<open>main\<close>: source 0 is in bounds, source 7 is not, and
  \<open>minDistance\<close> finds a vertex when vertices 2 and 4 are unvisited.
\<close>

theorem dijkstra_safe_in_bounds_witness:
  "square_graph main_graph
   \<and> (\<exists>out. dijkstra_safe no_junk no_junk main_graph 0 = Inr out)
   \<and> dijkstra_safe no_junk no_junk main_graph 7 = Inl (OutOfBounds Write ''dist'' 7 37)
   \<and> (\<exists>u. minDistance_safe [0, 10, 50, 30, 60] [1, 1, 0, 1, 0] = Inr u \<and> 0 \<le> u \<and> u < V)
   \<and> main_dijkstra_safe no_junk no_junk = Inr 0"
proof -
  note t = dijkstra_safe_in_bounds [OF square_main_graph, of no_junk no_junk]
  have 1: "\<exists>out. dijkstra_safe no_junk no_junk main_graph 0 = Inr out"
    using t [of 0] by (simp add: V_def)
  have 2: "dijkstra_safe no_junk no_junk main_graph 7 = Inl (OutOfBounds Write ''dist'' 7 37)"
    using t [of 7] by (simp add: V_def)
  have "unvisited [1, 1, 0, 1, 0] 2" by (simp add: unvisited_def V_def)
  then have 3: "\<exists>u. minDistance_safe [0, 10, 50, 30, 60] [1, 1, 0, 1, 0] = Inr u \<and> 0 \<le> u \<and> u < V"
    using t [of 0, THEN conjunct2, THEN conjunct2, THEN conjunct1, rule_format,
        of "[0, 10, 50, 30, 60]" "[1, 1, 0, 1, 0]"]
    by (auto simp: V_def)
  have 4: "main_dijkstra_safe no_junk no_junk = Inr 0"
    using t [of 0] by simp
  from square_main_graph 1 2 3 4 show ?thesis by (intro conjI)
qed

section \<open>Results: timer.c\<close>

text \<open>
  The invariant holds at entry and every step keeps it; from the loop test the run
  reaches the return after as many iterations as \<open>remaining\<close> says.
\<close>

lemma sint_pred:
  fixes r :: cint
  assumes "0 < sint r"
  shows "sint (r - 1) = sint r - 1"
proof -
  have "sint r < 2 ^ 31" using sint_lt [of r] by simp
  with assms have "signed_take_bit 31 (sint r - 1) = sint r - 1"
    by (intro signed_take_bit_int_eq_self) auto
  then show ?thesis by (simp add: sint_word_ariths)
qed

lemma do_access_fields [simp]:
  "pc (do_access loc p s) = pc s"
  "time_str (do_access loc p s) = time_str s"
  "remaining (do_access loc p s) = remaining s"
  "heap (do_access loc p s) = heap s"
  by (simp_all add: do_access_def split: status.splits)

lemma do_free_fields [simp]:
  "pc (do_free loc p s) = pc s"
  "time_str (do_free loc p s) = time_str s"
  "remaining (do_free loc p s) = remaining s"
  by (simp_all add: do_free_def split: status.splits)

lemma tick_inv_step:
  assumes "timer_tick_step clock seconds tick_rate s s'" and "tick_inv clock seconds s"
  shows "tick_inv clock seconds s'"
  using assms
proof (cases rule: timer_tick_step.cases)
  case (get_time_str buffer)
  then show ?thesis using assms(2)
    by (auto simp: tick_inv_def clock_get_formatted_time_def do_access_def)
next
  case first_free
  then show ?thesis using assms(2)
    by (auto simp: tick_inv_def do_free_def)
next
  case second_free
  then show ?thesis using assms(2)
    by (auto simp: tick_inv_def do_free_def expected_events_def)
next
  case loop_init
  then show ?thesis using assms(2)
    by (auto simp: tick_inv_def)
next
  case loop_enter
  then show ?thesis using assms(2)
    by (auto simp: tick_inv_def word_sless_alt)
next
  case loop_exit
  then show ?thesis using assms(2)
    by (auto simp: tick_inv_def word_sless_alt iterations_def)
next
  case (set_unix_time now)
  then show ?thesis using assms(2)
    by (auto simp: tick_inv_def do_access_def)
next
  case print_time_left
  then show ?thesis using assms(2)
    by (auto simp: tick_inv_def do_access_def expected_events_def replicate_append_same)
next
  case sleep_tick
  then show ?thesis using assms(2)
    by (auto simp: tick_inv_def)
next
  case loop_step
  moreover have "Suc (nat (sint seconds) - nat (sint r)) = nat (sint seconds) - nat (sint r - 1)"
    if "0 < sint r" and "sint r \<le> sint seconds" for r :: cint
    using that by linarith
  ultimately show ?thesis using assms(2)
    by (auto simp: tick_inv_def sint_pred iterations_def)
next
  case print_over
  then show ?thesis using assms(2)
    by (auto simp: tick_inv_def)
qed

lemma tick_inv_run:
  assumes "timer_tick_run clock seconds tick_rate s s'" and "tick_inv clock seconds s"
  shows "tick_inv clock seconds s'"
  using assms unfolding timer_tick_run_def
  by (induction rule: rtranclp_induct) (auto intro: tick_inv_step)

lemma tick_inv_entry: "timer_tick_entry clock s \<Longrightarrow> tick_inv clock seconds s"
  by (simp add: timer_tick_entry_def tick_inv_def)

lemma run_step:
  "timer_tick_step clock seconds tick_rate s s' \<Longrightarrow>
   timer_tick_run clock seconds tick_rate s' s'' \<Longrightarrow>
   timer_tick_run clock seconds tick_rate s s''"
  unfolding timer_tick_run_def by (rule converse_rtranclp_into_rtranclp)

lemma run_refl: "timer_tick_run clock seconds tick_rate s s"
  unfolding timer_tick_run_def by simp

lemma returns_from_test:
  assumes "pc s = L14_test"
  shows "\<exists>s'. timer_tick_run clock seconds tick_rate s s' \<and> pc s' = Returned"
  using assms
proof (induction "nat (sint (remaining s))" arbitrary: s)
  case 0
  then have "\<not> word_sless 0 (remaining s)" by (simp add: word_sless_alt)
  with 0 have 1: "timer_tick_step clock seconds tick_rate s (s\<lparr>pc := L20\<rparr>)"
    by (intro loop_exit) simp_all
  have 2: "timer_tick_step clock seconds tick_rate (s\<lparr>pc := L20\<rparr>) (s\<lparr>pc := L20\<rparr>\<lparr>pc := Returned\<rparr>)"
    by (intro print_over) simp
  show ?case
    using run_step [OF 1 run_step [OF 2 run_refl]] by auto
next
  case (Suc n)
  then have pos: "0 < sint (remaining s)" by simp
  then have lt: "word_sless 0 (remaining s)" by (simp add: word_sless_alt)
  let ?s1 = "s\<lparr>pc := L15\<rparr>"
  let ?s2 = "(do_access (''timer.c'', 15) clock ?s1)\<lparr>pc := L16, unix_time := 0\<rparr>"
  let ?s3 = "(do_access (''timer.c'', 16) (time_str ?s2) ?s2)\<lparr>pc := L18\<rparr>"
  let ?s4 = "?s3\<lparr>pc := L14_step\<rparr>"
  let ?s5 = "?s4\<lparr>pc := L14_test, remaining := remaining ?s4 - 1\<rparr>"
  have 1: "timer_tick_step clock seconds tick_rate s ?s1"
    using Suc.prems lt by (intro loop_enter)
  have 2: "timer_tick_step clock seconds tick_rate ?s1 ?s2"
    by (intro set_unix_time) simp
  have 3: "timer_tick_step clock seconds tick_rate ?s2 ?s3"
    by (intro print_time_left) simp
  have 4: "timer_tick_step clock seconds tick_rate ?s3 ?s4"
    by (intro sleep_tick) simp
  have 5: "timer_tick_step clock seconds tick_rate ?s4 ?s5"
    by (intro loop_step) simp
  have "n = nat (sint (remaining ?s5))"
    using Suc.hyps(2) pos by (simp add: sint_pred)
  moreover have "pc ?s5 = L14_test" by simp
  ultimately obtain s' where "timer_tick_run clock seconds tick_rate ?s5 s'" and "pc s' = Returned"
    using Suc.hyps(1) by blast
  then show ?case
    using run_step [OF 1 run_step [OF 2 run_step [OF 3 run_step [OF 4 run_step [OF 5]]]]]
    by blast
qed

lemma returns_from_entry:
  assumes "pc s = L9" and "heap s buffer \<noteq> Live"
  shows "\<exists>s'. timer_tick_run clock seconds tick_rate s s' \<and> pc s' = Returned"
proof -
  let ?s1 = "(clock_get_formatted_time clock buffer s)\<lparr>pc := L11, time_str := buffer\<rparr>"
  let ?s2 = "(do_free (''timer.c'', 11) (time_str ?s1) ?s1)\<lparr>pc := L12\<rparr>"
  let ?s3 = "(do_free (''timer.c'', 12) (time_str ?s2) ?s2)\<lparr>pc := L14_init\<rparr>"
  let ?s4 = "?s3\<lparr>pc := L14_test, remaining := seconds\<rparr>"
  have 1: "timer_tick_step clock seconds tick_rate s ?s1"
    using assms by (intro get_time_str)
  have 2: "timer_tick_step clock seconds tick_rate ?s1 ?s2"
    by (intro first_free) simp
  have 3: "timer_tick_step clock seconds tick_rate ?s2 ?s3"
    by (intro second_free) simp
  have 4: "timer_tick_step clock seconds tick_rate ?s3 ?s4"
    by (intro loop_init) simp
  have "pc ?s4 = L14_test" by simp
  from returns_from_test [OF this, of clock seconds tick_rate]
  obtain s' where "timer_tick_run clock seconds tick_rate ?s4 s'" and "pc s' = Returned"
    by blast
  then show ?thesis
    using run_step [OF 1 run_step [OF 2 run_step [OF 3 run_step [OF 4]]]] by blast
qed

text \<open>
  Claim C1. Every call of \<open>timer_tick\<close> frees \<open>time_str\<close> on line 11 and frees the
  same pointer again on line 12, a double free; every iteration of the loop passes the
  freed \<open>time_str\<close> to \<open>printf\<close> on line 16, a use after free. From every entry state
  (the \<open>Clock\<close> live, some block left for \<open>malloc\<close>) the call returns, and every run
  that returns has recorded exactly one double free, at line 12, followed by one use
  after free at line 16 for each of the \<open>seconds\<close> iterations (none when
  \<open>seconds \<le> 0\<close>, at least one when \<open>seconds \<ge> 1\<close>), and nothing else. At every
  point of every run after the second \<open>free\<close> the record is the double free followed
  by the uses after free of the iterations so far.
\<close>

theorem timer_tick_violations:
  assumes "timer_tick_entry clock s" and "heap s buffer \<noteq> Live"
  shows "(\<exists>s'. timer_tick_run clock seconds tick_rate s s' \<and> pc s' = Returned)
       \<and> (\<forall>s'. timer_tick_run clock seconds tick_rate s s' \<and> pc s' = Returned \<longrightarrow>
             events s' = DoubleFree (''timer.c'', 12)
                         # replicate (nat (sint seconds)) (UseAfterFree (''timer.c'', 16)))
       \<and> (\<forall>s'. timer_tick_run clock seconds tick_rate s s' \<and> pc s' \<notin> {L9, L11, L12} \<longrightarrow>
             (\<exists>k \<le> nat (sint seconds). events s' = DoubleFree (''timer.c'', 12)
                         # replicate k (UseAfterFree (''timer.c'', 16))))"
proof (intro conjI allI impI)
  show "\<exists>s'. timer_tick_run clock seconds tick_rate s s' \<and> pc s' = Returned"
    using assms returns_from_entry by (simp add: timer_tick_entry_def)
next
  fix s'
  assume a: "timer_tick_run clock seconds tick_rate s s' \<and> pc s' = Returned"
  then have "tick_inv clock seconds s'"
    using tick_inv_run tick_inv_entry [OF assms(1)] by blast
  with a show "events s' = DoubleFree (''timer.c'', 12)
                 # replicate (nat (sint seconds)) (UseAfterFree (''timer.c'', 16))"
    by (simp add: tick_inv_def expected_events_def iterations_def)
next
  fix s'
  assume a: "timer_tick_run clock seconds tick_rate s s' \<and> pc s' \<notin> {L9, L11, L12}"
  then have i: "tick_inv clock seconds s'"
    using tick_inv_run tick_inv_entry [OF assms(1)] by blast
  have "\<exists>k \<le> iterations seconds. events s' = expected_events k"
  proof (cases "pc s'")
    case L14_test
    with i show ?thesis
      by (intro exI [of _ "iterations seconds - iterations (remaining s')"])
         (simp add: tick_inv_def)
  next
    case L15
    with i show ?thesis
      by (intro exI [of _ "iterations seconds - iterations (remaining s')"])
         (simp add: tick_inv_def)
  next
    case L16
    with i show ?thesis
      by (intro exI [of _ "iterations seconds - iterations (remaining s')"])
         (simp add: tick_inv_def)
  next
    case L18
    with i show ?thesis
      by (intro exI [of _ "Suc (iterations seconds - iterations (remaining s'))"])
         (auto simp: tick_inv_def iterations_def)
  next
    case L14_step
    with i show ?thesis
      by (intro exI [of _ "Suc (iterations seconds - iterations (remaining s'))"])
         (auto simp: tick_inv_def iterations_def)
  qed (use a i in \<open>auto simp: tick_inv_def\<close>)
  then show "\<exists>k \<le> nat (sint seconds). events s' = DoubleFree (''timer.c'', 12)
                         # replicate k (UseAfterFree (''timer.c'', 16))"
    by (simp add: expected_events_def iterations_def)
qed

text \<open>
  The theorem at \<open>seconds = 2\<close>, \<open>tick_rate = 1\<close>, from the entry state whose only live
  block is the \<open>Clock\<close>: one double free, two uses after free.
\<close>

theorem timer_tick_violations_witness:
  "timer_tick_entry 0 example_entry \<and> heap example_entry 1 \<noteq> Live
   \<and> (\<exists>s'. timer_tick_run 0 2 1 example_entry s' \<and> pc s' = Returned
          \<and> events s' = [DoubleFree (''timer.c'', 12),
                          UseAfterFree (''timer.c'', 16), UseAfterFree (''timer.c'', 16)])"
proof -
  have e: "timer_tick_entry 0 example_entry"
    by (simp add: timer_tick_entry_def example_entry_def)
  have h: "heap example_entry 1 \<noteq> Live"
    by (simp add: example_entry_def)
  note t = timer_tick_violations [OF e h, of 2 1]
  then obtain s' where r: "timer_tick_run 0 2 1 example_entry s'" and p: "pc s' = Returned"
    by blast
  with t have "events s' = DoubleFree (''timer.c'', 12)
                 # replicate (nat (sint (2 :: cint))) (UseAfterFree (''timer.c'', 16))"
    by blast
  then have "events s' = [DoubleFree (''timer.c'', 12),
                          UseAfterFree (''timer.c'', 16), UseAfterFree (''timer.c'', 16)]"
    by (simp add: numeral_2_eq_2)
  with e h r p show ?thesis by blast
qed

end
